theory Spec2Isabelle
  imports Main
begin

section \<open>JavaScript strings and numbers\<close>

text \<open>
  A JavaScript string is a sequence of UTF-16 code units, and \<^verbatim>\<open>split('')\<close>,
  \<^verbatim>\<open>length\<close> and the regular expressions of this code base (none has the \<^verbatim>\<open>u\<close>
  flag) all work on code units. A code unit is modelled as a natural number and a string
  as a list of them. Every glyph the program names lies in the Basic Multilingual Plane,
  so it is one code unit. Numbers are modelled as \<^typ>\<open>int\<close>: the program only produces
  integers, and the model agrees with IEEE doubles below \<open>2^53\<close>.
\<close>

type_synonym jschar = nat
type_synonym jsstring = "nat list"

definition js :: "string \<Rightarrow> jsstring" where
  "js s = map of_char s"

text \<open>
  \<^verbatim>\<open>WhiteSpace\<close> and \<^verbatim>\<open>LineTerminator\<close> of ECMAScript: what \<^verbatim>\<open>trim()\<close> strips,
  what \<^verbatim>\<open>\s\<close> matches and what \<^verbatim>\<open>parseInt\<close> skips.
\<close>

definition is_ws :: "jschar \<Rightarrow> bool" where
  "is_ws c \<longleftrightarrow>
     (9 \<le> c \<and> c \<le> 13) \<or> c = 32 \<or> c = 160 \<or> c = 5760 \<or> (8192 \<le> c \<and> c \<le> 8202)
     \<or> c = 8232 \<or> c = 8233 \<or> c = 8239 \<or> c = 8287 \<or> c = 12288 \<or> c = 65279"

definition is_digit :: "jschar \<Rightarrow> bool" where
  "is_digit c \<longleftrightarrow> 48 \<le> c \<and> c \<le> 57"

definition trim :: "jsstring \<Rightarrow> jsstring" where
  "trim s = rev (dropWhile is_ws (rev (dropWhile is_ws s)))"

text \<open>\<^verbatim>\<open>String(n)\<close> for an integer: decimal digits, with a minus sign when negative.\<close>

fun dec :: "nat \<Rightarrow> jsstring" where
  "dec n = (if n < 10 then [48 + n] else dec (n div 10) @ [48 + n mod 10])"

declare dec.simps [simp del]

definition String_of :: "int \<Rightarrow> jsstring" where
  "String_of n = (if n < 0 then 45 # dec (nat (- n)) else dec (nat n))"

text \<open>
  \<^verbatim>\<open>parseInt(s, 10)\<close>: skip leading white space, read an optional sign, then the longest
  run of decimal digits. \<open>None\<close> is \<^verbatim>\<open>NaN\<close>.
\<close>

definition digits_value :: "jsstring \<Rightarrow> nat" where
  "digits_value ds = foldl (\<lambda>a d. 10 * a + (d - 48)) 0 ds"

definition parseInt :: "jsstring \<Rightarrow> int option" where
  "parseInt s =
     (let t = dropWhile is_ws s;
          sgn = (case t of c # _ \<Rightarrow> if c = 45 then - 1 else 1 | [] \<Rightarrow> 1);
          u = (case t of c # r \<Rightarrow> if c = 45 \<or> c = 43 then r else t | [] \<Rightarrow> t);
          ds = takeWhile is_digit u
      in if ds = [] then None else Some (sgn * int (digits_value ds)))"

section \<open>Numeral codec\<close>

text \<open>
  The glyph tables of \<^verbatim>\<open>chinese-numerals.ts\<close>, keyed by code unit:
  U+96F6 and U+3007 are zero; U+4E00, U+58F9 one; U+4E8C, U+8D30, U+4E24 two; U+4E09, U+53C1
  three; U+56DB, U+8086 four; U+4E94, U+4F0D five; U+516D, U+9646 six; U+4E03, U+67D2 seven;
  U+516B, U+634C eight; U+4E5D, U+7396 nine. The multipliers are U+5341, U+62FE (ten),
  U+767E, U+4F70 (hundred) and U+5343, U+4EDF (thousand).
\<close>

definition CHINESE_DIGITS :: "jschar \<rightharpoonup> int" where
  "CHINESE_DIGITS = map_of
     [(38646, 0), (12295, 0),
      (19968, 1), (22777, 1),
      (20108, 2), (36144, 2), (20004, 2),
      (19977, 3), (21441, 3),
      (22235, 4), (32902, 4),
      (20116, 5), (20237, 5),
      (20845, 6), (38470, 6),
      (19971, 7), (26578, 7),
      (20843, 8), (25420, 8),
      (20061, 9), (29590, 9)]"

definition CHINESE_MULTIPLIERS :: "jschar \<rightharpoonup> int" where
  "CHINESE_MULTIPLIERS = map_of
     [(21313, 10), (25342, 10),
      (30334, 100), (20336, 100),
      (21315, 1000), (20191, 1000)]"

definition ARABIC_TO_CHINESE :: "jsstring list" where
  "ARABIC_TO_CHINESE =
     [[38646], [19968], [20108], [19977], [22235], [20116], [20845], [19971], [20843], [20061]]"

text \<open>
  The \<^verbatim>\<open>for\<close> loop of \<^verbatim>\<open>chineseToArabic\<close>: \<open>i\<close> is the index, the next three
  arguments are the loop's variables, the list is what is left of \<^verbatim>\<open>chars\<close>. At the
  end of the input the trailing digit is added.
\<close>

fun scan_numeral :: "nat \<Rightarrow> int \<Rightarrow> int \<Rightarrow> int \<Rightarrow> jsstring \<Rightarrow> int" where
  "scan_numeral i result currentNum lastMultiplier [] = result + currentNum"
| "scan_numeral i result currentNum lastMultiplier (c # cs) =
     (case CHINESE_DIGITS c of
        Some d \<Rightarrow> scan_numeral (i + 1) result d lastMultiplier cs
      | None \<Rightarrow>
         (case CHINESE_MULTIPLIERS c of
            Some multiplier \<Rightarrow>
              if currentNum = 0 \<and> multiplier = 10 \<and> i = 0
              then scan_numeral (i + 1) (result + 10) 0 multiplier cs
              else scan_numeral (i + 1) (result + currentNum * multiplier) 0 multiplier cs
          | None \<Rightarrow> scan_numeral (i + 1) result currentNum lastMultiplier cs))"

definition chineseToArabic :: "jsstring \<Rightarrow> int" where
  "chineseToArabic chinese =
     (let chars = trim chinese in
      if length chars = 0 then 0
      else if length chars = 1 then
        (case CHINESE_DIGITS (chars ! 0) of
           Some d \<Rightarrow> d
         | None \<Rightarrow> if chars ! 0 = 21313 then 10 else 0)
      else scan_numeral 0 0 0 1 chars)"

definition arabicToChinese :: "int \<Rightarrow> jsstring" where
  "arabicToChinese num =
     (if num < 0 \<or> num > 9999 then String_of num
      else if num = 0 then [38646]
      else
        let thousands = num div 1000;
            hundreds = (num mod 1000) div 100;
            tens = (num mod 100) div 10;
            ones = num mod 10;
            p1 = (if thousands > 0 then [ARABIC_TO_CHINESE ! nat thousands @ [21315]] else []);
            p2 = (if hundreds > 0 then [ARABIC_TO_CHINESE ! nat hundreds @ [30334]]
                  else if thousands > 0 \<and> (tens > 0 \<or> ones > 0) then [[38646]] else []);
            p3 = (if tens > 0 then
                    (if tens = 1 \<and> thousands = 0 \<and> hundreds = 0 then [[21313]]
                     else [ARABIC_TO_CHINESE ! nat tens @ [21313]])
                  else if hundreds > 0 \<and> ones > 0 then [[38646]] else []);
            p4 = (if ones > 0 then [ARABIC_TO_CHINESE ! nat ones] else [])
        in concat (p1 @ p2 @ p3 @ p4))"

text \<open>A glyph is recognised when one of the two tables has it.\<close>

definition recognised :: "jschar \<Rightarrow> bool" where
  "recognised c \<longleftrightarrow> CHINESE_DIGITS c \<noteq> None \<or> CHINESE_MULTIPLIERS c \<noteq> None"

text \<open>\<^verbatim>\<open>buildChineseRef\<close>: U+7B2C, the numeral, U+6761 (article) or U+6B3E (paragraph).\<close>

definition buildChineseRef :: "int \<Rightarrow> int option \<Rightarrow> jsstring" where
  "buildChineseRef article paragraph =
     [31532] @ arabicToChinese article @ [26465] @
     (case paragraph of
        Some p \<Rightarrow> if p > 0 then [31532] @ arabicToChinese p @ [27454] else []
      | None \<Rightarrow> [])"

section \<open>Citation formatter\<close>

datatype citation_type = statute | administrative_regulation | unknown

record ParsedCitation =
  valid :: bool
  type :: citation_type
  title :: "jsstring option"
  title_en :: "jsstring option"
  article :: "jsstring option"
  paragraph_num :: "jsstring option"
  error :: "jsstring option"

text \<open>
  The five members of \<^verbatim>\<open>CitationFormat\<close>; \<open>Other\<close> stands for any other string, which
  the \<^verbatim>\<open>switch\<close> sends to its \<^verbatim>\<open>default\<close> branch.
\<close>

datatype CitationFormat = Full | Short | Pinpoint | Chinese | English | Other

text \<open>Truthiness of an optional string: present and not empty.\<close>

definition truthy :: "jsstring option \<Rightarrow> bool" where
  "truthy s \<longleftrightarrow> (case s of None \<Rightarrow> False | Some t \<Rightarrow> t \<noteq> [])"

text \<open>
  \<^verbatim>\<open>s.replace(/,\s*$/, '')\<close>: the leftmost comma that only white space follows is cut
  off with that white space.
\<close>

fun strip_trailing_comma :: "jsstring \<Rightarrow> jsstring" where
  "strip_trailing_comma [] = []"
| "strip_trailing_comma (c # cs) =
     (if c = 44 \<and> list_all is_ws cs then [] else c # strip_trailing_comma cs)"

definition formatCitation :: "ParsedCitation \<Rightarrow> CitationFormat \<Rightarrow> jsstring" where
  "formatCitation parsed format =
     (if \<not> valid parsed \<or> \<not> truthy (article parsed) then []
      else
        let art = the (article parsed);
            articleNum = parseInt art;
            paragraphNum = (if truthy (paragraph_num parsed) then parseInt (the (paragraph_num parsed)) else None);
            ttl = (case title parsed of Some t \<Rightarrow> t
                   | None \<Rightarrow> (case title_en parsed of Some t \<Rightarrow> t | None \<Rightarrow> []));
            para = (\<lambda>label. if truthy (paragraph_num parsed) then label @ the (paragraph_num parsed) else [])
        in case format of
             Chinese \<Rightarrow>
               trim (buildChineseRef (case articleNum of None \<Rightarrow> 0 | Some a \<Rightarrow> a) paragraphNum
                     @ js '' '' @ ttl)
           | English \<Rightarrow>
               strip_trailing_comma (trim (js ''Article '' @ art @ para (js '', Paragraph '') @ js '', ''
                 @ (case title_en parsed of Some t \<Rightarrow> t | None \<Rightarrow> ttl)))
           | Full \<Rightarrow>
               strip_trailing_comma (trim (js ''Article '' @ art @ para (js '', Paragraph '') @ js '', '' @ ttl))
           | Short \<Rightarrow> trim (js ''Art. '' @ art @ para (js '', Para. '') @ js '' '' @ ttl)
           | Pinpoint \<Rightarrow> js ''Art. '' @ art @ para (js '', Para. '')
           | Other \<Rightarrow> strip_trailing_comma (trim (js ''Article '' @ art @ js '', '' @ ttl)))"

section \<open>Regular expressions\<close>

text \<open>
  The regular expressions of the program, as backtracking matchers in continuation style,
  with the priorities of ECMAScript: a matcher takes what is to follow (the continuation),
  the rest of the input and the captures so far, and gives the first success in the order
  in which the engine tries the alternatives. A greedy quantifier tries the longest run
  first, a lazy one the shortest. The result is the input left after the match and the
  captures. Only character classes are starred in these patterns, so the quantifiers are
  defined on classes.
\<close>

type_synonym caps = "nat \<Rightarrow> jsstring option"
type_synonym rx_result = "(jsstring \<times> caps) option"
type_synonym rx_cont = "jsstring \<Rightarrow> caps \<Rightarrow> rx_result"
type_synonym rx = "rx_cont \<Rightarrow> rx_cont"

fun rx_cls :: "(jschar \<Rightarrow> bool) \<Rightarrow> rx" where
  "rx_cls p k [] c = None"
| "rx_cls p k (x # xs) c = (if p x then k xs c else None)"

primrec rx_all :: "rx list \<Rightarrow> rx" where
  "rx_all [] k = k"
| "rx_all (r # rs) k = r (rx_all rs k)"

definition rx_alt :: "rx \<Rightarrow> rx \<Rightarrow> rx" where
  "rx_alt a b k s c = (case a k s c of Some r \<Rightarrow> Some r | None \<Rightarrow> b k s c)"

definition rx_opt :: "rx \<Rightarrow> rx" where
  "rx_opt a k s c = (case a k s c of Some r \<Rightarrow> Some r | None \<Rightarrow> k s c)"

fun rx_star :: "(jschar \<Rightarrow> bool) \<Rightarrow> rx" where
  "rx_star p k [] c = k [] c"
| "rx_star p k (x # xs) c =
     (if p x then (case rx_star p k xs c of Some r \<Rightarrow> Some r | None \<Rightarrow> k (x # xs) c)
      else k (x # xs) c)"

definition rx_plus :: "(jschar \<Rightarrow> bool) \<Rightarrow> rx" where
  "rx_plus p k = rx_cls p (rx_star p k)"

fun rx_lazy_star :: "(jschar \<Rightarrow> bool) \<Rightarrow> rx" where
  "rx_lazy_star p k [] c = k [] c"
| "rx_lazy_star p k (x # xs) c =
     (case k (x # xs) c of Some r \<Rightarrow> Some r
      | None \<Rightarrow> if p x then rx_lazy_star p k xs c else None)"

definition rx_lazy_plus :: "(jschar \<Rightarrow> bool) \<Rightarrow> rx" where
  "rx_lazy_plus p k = rx_cls p (rx_lazy_star p k)"

definition rx_group :: "nat \<Rightarrow> rx \<Rightarrow> rx" where
  "rx_group n a k s c = a (\<lambda>s' c'. k s' (c'(n \<mapsto> take (length s - length s') s))) s c"

fun rx_eol :: rx where
  "rx_eol k [] c = k [] c"
| "rx_eol k (x # xs) c = None"

text \<open>
  A literal, and a literal under the flag \<^verbatim>\<open>i\<close>. Without the flag \<^verbatim>\<open>u\<close> a code unit
  above 127 is never folded onto an ASCII letter, so an ASCII letter of a pattern matches
  its two cases and nothing else.
\<close>

definition ci :: "jschar \<Rightarrow> jschar \<Rightarrow> bool" where
  "ci a x \<longleftrightarrow> x = a \<or> (65 \<le> a \<and> a \<le> 90 \<and> x = a + 32) \<or> (97 \<le> a \<and> a \<le> 122 \<and> x + 32 = a)"

primrec rx_lit :: "jsstring \<Rightarrow> rx" where
  "rx_lit [] k = k"
| "rx_lit (a # as) k = rx_cls (\<lambda>x. x = a) (rx_lit as k)"

primrec rx_lit_i :: "jsstring \<Rightarrow> rx" where
  "rx_lit_i [] k = k"
| "rx_lit_i (a # as) k = rx_cls (ci a) (rx_lit_i as k)"

text \<open>A pattern that begins with \<^verbatim>\<open>^\<close> is tried at the start of the input only.\<close>

definition rx_exec :: "rx \<Rightarrow> jsstring \<Rightarrow> rx_result" where
  "rx_exec r s = r (\<lambda>s' c. Some (s', c)) s (\<lambda>n. None)"

text \<open>A pattern without \<^verbatim>\<open>^\<close> is tried at every position, from the left.\<close>

fun rx_search :: "rx \<Rightarrow> jsstring \<Rightarrow> rx_result" where
  "rx_search r [] = rx_exec r []"
| "rx_search r (x # xs) =
     (case rx_exec r (x # xs) of Some m \<Rightarrow> Some m | None \<Rightarrow> rx_search r xs)"

text \<open>The classes: \<^verbatim>\<open>.\<close> (all but the line terminators), \<^verbatim>\<open>\w\<close>, \<^verbatim>\<open>[a-z]\<close> under \<^verbatim>\<open>i\<close>.\<close>

definition is_dot :: "jschar \<Rightarrow> bool" where
  "is_dot c \<longleftrightarrow> c \<noteq> 10 \<and> c \<noteq> 13 \<and> c \<noteq> 8232 \<and> c \<noteq> 8233"

definition is_alpha :: "jschar \<Rightarrow> bool" where
  "is_alpha c \<longleftrightarrow> (65 \<le> c \<and> c \<le> 90) \<or> (97 \<le> c \<and> c \<le> 122)"

definition is_word :: "jschar \<Rightarrow> bool" where
  "is_word c \<longleftrightarrow> is_alpha c \<or> is_digit c \<or> c = 95"

section \<open>Citation parser\<close>

text \<open>
  The patterns of \<^verbatim>\<open>parser.ts\<close> and \<^verbatim>\<open>chinese-numerals.ts\<close>, quoted with their
  glyphs written \<^verbatim>\<open>\uXXXX\<close> and the name of the state \<^verbatim>\<open><PRC>\<close>. The glyphs: U+7B2C (31532)
  opens a reference, U+6761 (26465) closes an article, U+6B3E (27454) a paragraph; U+6CD5
  (27861), U+5178 (20856) and U+6761 U+4F8B (26465, 20363) end the name of a law; U+FF0C
  (65292) is the wide comma; the seven glyphs of the optional prefix are the name of the
  state.
\<close>

definition PRC_PREFIX :: jsstring where
  "PRC_PREFIX = [20013, 21326, 20154, 27665, 20849, 21644, 22269]"

definition LAW_SUFFIX :: rx where
  "LAW_SUFFIX = rx_alt (rx_lit [27861]) (rx_alt (rx_lit [20856]) (rx_lit [26465, 20363]))"

definition COMMA :: rx where
  "COMMA = rx_cls (\<lambda>c. c = 44)"

definition ANY_COMMA :: rx where
  "ANY_COMMA = rx_cls (\<lambda>c. c = 44 \<or> c = 65292)"

definition DOT :: rx where
  "DOT = rx_cls (\<lambda>c. c = 46)"

text \<open>\<^verbatim>\<open>/^([a-z][\w-]+(?:-\d{4})?)\s*,?\s*(?:art\.?|article)\s*(\d+)(?:\s*,?\s*(?:para?\.?|paragraph)\s*(\d+))?$/i\<close>\<close>

definition ID_CITATION :: rx where
  "ID_CITATION = rx_all
     [rx_group 1 (rx_all
        [rx_cls is_alpha, rx_plus (\<lambda>c. is_word c \<or> c = 45),
         rx_opt (rx_all [rx_cls (\<lambda>c. c = 45), rx_cls is_digit, rx_cls is_digit,
                         rx_cls is_digit, rx_cls is_digit])]),
      rx_star is_ws, rx_opt COMMA, rx_star is_ws,
      rx_alt (rx_all [rx_lit_i (js ''art''), rx_opt DOT]) (rx_lit_i (js ''article'')),
      rx_star is_ws,
      rx_group 2 (rx_plus is_digit),
      rx_opt (rx_all
        [rx_star is_ws, rx_opt COMMA, rx_star is_ws,
         rx_alt (rx_all [rx_lit_i (js ''par''), rx_opt (rx_cls (ci 97)), rx_opt DOT])
                (rx_lit_i (js ''paragraph'')),
         rx_star is_ws,
         rx_group 3 (rx_plus is_digit)]),
      rx_eol]"

text \<open>\<^verbatim>\<open>/^\u7b2c(.+?)\u6761(?:\u7b2c(.+?)\u6b3e)?\s*[,\uff0c]?\s*(?:<PRC>)?(.+?)(?:\u6cd5|\u5178|\u6761\u4f8b)$/\<close>\<close>

definition CHINESE_CITATION :: rx where
  "CHINESE_CITATION = rx_all
     [rx_lit [31532], rx_group 1 (rx_lazy_plus is_dot), rx_lit [26465],
      rx_opt (rx_all [rx_lit [31532], rx_group 2 (rx_lazy_plus is_dot), rx_lit [27454]]),
      rx_star is_ws, rx_opt ANY_COMMA, rx_star is_ws,
      rx_opt (rx_lit PRC_PREFIX),
      rx_group 3 (rx_lazy_plus is_dot),
      LAW_SUFFIX,
      rx_eol]"

text \<open>\<^verbatim>\<open>/^(?:<PRC>)?(.+?(?:\u6cd5|\u5178|\u6761\u4f8b))\s*[,\uff0c]?\s*\u7b2c(.+?)\u6761(?:\u7b2c(.+?)\u6b3e)?$/\<close>\<close>

definition CHINESE_LAW_FIRST :: rx where
  "CHINESE_LAW_FIRST = rx_all
     [rx_opt (rx_lit PRC_PREFIX),
      rx_group 1 (rx_all [rx_lazy_plus is_dot, LAW_SUFFIX]),
      rx_star is_ws, rx_opt ANY_COMMA, rx_star is_ws,
      rx_lit [31532], rx_group 2 (rx_lazy_plus is_dot), rx_lit [26465],
      rx_opt (rx_all [rx_lit [31532], rx_group 3 (rx_lazy_plus is_dot), rx_lit [27454]]),
      rx_eol]"

text \<open>\<^verbatim>\<open>/^Article\s+(\d+)(?:\s*,?\s*Paragraph\s+(\d+))?\s*,?\s+(.+?)$/i\<close>\<close>

definition ENGLISH_CITATION :: rx where
  "ENGLISH_CITATION = rx_all
     [rx_lit_i (js ''Article''), rx_plus is_ws, rx_group 1 (rx_plus is_digit),
      rx_opt (rx_all
        [rx_star is_ws, rx_opt COMMA, rx_star is_ws, rx_lit_i (js ''Paragraph''), rx_plus is_ws,
         rx_group 2 (rx_plus is_digit)]),
      rx_star is_ws, rx_opt COMMA, rx_plus is_ws,
      rx_group 3 (rx_lazy_plus is_dot),
      rx_eol]"

text \<open>\<^verbatim>\<open>/^Art\.?\s*(\d+)(?:\s*,?\s*(?:Para?\.?\s*)?(\d+))?\s*,?\s+(.+?)(?:\s+(\d{4}))?$/i\<close>\<close>

definition SHORT_CITATION :: rx where
  "SHORT_CITATION = rx_all
     [rx_lit_i (js ''Art''), rx_opt DOT, rx_star is_ws, rx_group 1 (rx_plus is_digit),
      rx_opt (rx_all
        [rx_star is_ws, rx_opt COMMA, rx_star is_ws,
         rx_opt (rx_all [rx_lit_i (js ''Par''), rx_opt (rx_cls (ci 97)), rx_opt DOT, rx_star is_ws]),
         rx_group 2 (rx_plus is_digit)]),
      rx_star is_ws, rx_opt COMMA, rx_plus is_ws,
      rx_group 3 (rx_lazy_plus is_dot),
      rx_opt (rx_all
        [rx_plus is_ws,
         rx_group 4 (rx_all [rx_cls is_digit, rx_cls is_digit, rx_cls is_digit, rx_cls is_digit])]),
      rx_eol]"

text \<open>\<^verbatim>\<open>/^\u7b2c(.+?)\u6761(?:\u7b2c(.+?)\u6b3e)?$/\<close> and \<^verbatim>\<open>/^Article\s+(\d+)(?:\s*,?\s*Paragraph\s+(\d+))?$/i\<close>\<close>

definition BARE_CHINESE_ARTICLE :: rx where
  "BARE_CHINESE_ARTICLE = rx_all
     [rx_lit [31532], rx_group 1 (rx_lazy_plus is_dot), rx_lit [26465],
      rx_opt (rx_all [rx_lit [31532], rx_group 2 (rx_lazy_plus is_dot), rx_lit [27454]]),
      rx_eol]"

definition BARE_ENGLISH_ARTICLE :: rx where
  "BARE_ENGLISH_ARTICLE = rx_all
     [rx_lit_i (js ''Article''), rx_plus is_ws, rx_group 1 (rx_plus is_digit),
      rx_opt (rx_all
        [rx_star is_ws, rx_opt COMMA, rx_star is_ws, rx_lit_i (js ''Paragraph''), rx_plus is_ws,
         rx_group 2 (rx_plus is_digit)]),
      rx_eol]"

text \<open>\<^verbatim>\<open>/\u7b2c(.+?)\u6761/\<close> of \<^verbatim>\<open>extractArticleNumber\<close>, and \<^verbatim>\<open>/(?:\u6cd5|\u5178|\u6761\u4f8b)$/\<close>.\<close>

definition ARTICLE_REF :: rx where
  "ARTICLE_REF = rx_all [rx_lit [31532], rx_group 1 (rx_lazy_plus is_dot), rx_lit [26465]]"

definition LAW_SUFFIX_AT_END :: rx where
  "LAW_SUFFIX_AT_END = rx_all [rx_group 0 LAW_SUFFIX, rx_eol]"

text \<open>
  A \<^verbatim>\<open>TypeError\<close> is what \<^verbatim>\<open>.trim()\<close> on an absent capture would throw. An absent
  capture that is put into a string reads \<^verbatim>\<open>undefined\<close>.
\<close>

datatype js_error = TypeError

definition js_str :: "jsstring option \<Rightarrow> jsstring" where
  "js_str s = (case s of None \<Rightarrow> js ''undefined'' | Some t \<Rightarrow> t)"

text \<open>\<^verbatim>\<open>x || undefined\<close> on an optional string.\<close>

definition or_undefined :: "jsstring option \<Rightarrow> jsstring option" where
  "or_undefined s = (if truthy s then s else None)"

definition extractArticleNumber :: "jsstring \<Rightarrow> js_error + int option" where
  "extractArticleNumber ref =
     (case rx_search ARTICLE_REF ref of
        None \<Rightarrow> Inr None
      | Some m \<Rightarrow>
          (case snd m 1 of
             None \<Rightarrow> Inl TypeError
           | Some g \<Rightarrow>
               let numStr = trim g in
               (case parseInt numStr of
                  Some arabicNum \<Rightarrow> Inr (Some arabicNum)
                | None \<Rightarrow> Inr (Some (chineseToArabic numStr)))))"

definition parseChineseNumber :: "jsstring \<Rightarrow> js_error + int option" where
  "parseChineseNumber numStr =
     (case parseInt numStr of
        Some arabic \<Rightarrow> Inr (Some arabic)
      | None \<Rightarrow> extractArticleNumber ([31532] @ numStr @ [26465]))"

text \<open>
  The article of the three Chinese branches: \<^verbatim>\<open>article != null ? String(article) : match[i]\<close>;
  and the paragraph: \<^verbatim>\<open>match[j] ? parseChineseNumber(match[j]) : undefined\<close>, then
  \<^verbatim>\<open>paragraph != null ? String(paragraph) : undefined\<close>.
\<close>

definition chinese_article :: "jsstring option \<Rightarrow> js_error + jsstring option" where
  "chinese_article g =
     (case parseChineseNumber (js_str g) of
        Inl e \<Rightarrow> Inl e
      | Inr None \<Rightarrow> Inr g
      | Inr (Some a) \<Rightarrow> Inr (Some (String_of a)))"

definition chinese_paragraph :: "jsstring option \<Rightarrow> js_error + jsstring option" where
  "chinese_paragraph g =
     (if truthy g then
        (case parseChineseNumber (js_str g) of
           Inl e \<Rightarrow> Inl e
         | Inr None \<Rightarrow> Inr None
         | Inr (Some p) \<Rightarrow> Inr (Some (String_of p)))
      else Inr None)"

definition parse_failure :: "jsstring \<Rightarrow> ParsedCitation" where
  "parse_failure trimmed =
     \<lparr>valid = False, type = unknown, ParsedCitation.title = None, title_en = None, article = None,
      paragraph_num = None,
      error = Some (js ''Could not parse Chinese law citation: \"'' @ trimmed @ js ''\"'')\<rparr>"

definition parseCitation :: "jsstring \<Rightarrow> js_error + ParsedCitation" where
  "parseCitation citation =
     (let trimmed = trim citation in
      case rx_exec ID_CITATION trimmed of
        Some m \<Rightarrow>
          Inr \<lparr>valid = True, type = statute, ParsedCitation.title = snd m 1, title_en = None,
               article = snd m 2, paragraph_num = or_undefined (snd m 3), error = None\<rparr>
      | None \<Rightarrow>
     (case rx_exec CHINESE_CITATION trimmed of
        Some m \<Rightarrow>
          (case chinese_article (snd m 1) of Inl e \<Rightarrow> Inl e | Inr art \<Rightarrow>
          (case chinese_paragraph (snd m 2) of Inl e \<Rightarrow> Inl e | Inr par \<Rightarrow>
          (case snd m 3 of None \<Rightarrow> Inl TypeError | Some g3 \<Rightarrow>
             Inr \<lparr>valid = True, type = statute,
                  ParsedCitation.title = Some (trim g3 @
                    js_str (case rx_search LAW_SUFFIX_AT_END trimmed of
                              None \<Rightarrow> None | Some sm \<Rightarrow> snd sm 0)),
                  title_en = None, article = art, paragraph_num = par, error = None\<rparr>)))
      | None \<Rightarrow>
     (case rx_exec CHINESE_LAW_FIRST trimmed of
        Some m \<Rightarrow>
          (case chinese_article (snd m 2) of Inl e \<Rightarrow> Inl e | Inr art \<Rightarrow>
          (case chinese_paragraph (snd m 3) of Inl e \<Rightarrow> Inl e | Inr par \<Rightarrow>
          (case snd m 1 of None \<Rightarrow> Inl TypeError | Some g1 \<Rightarrow>
             Inr \<lparr>valid = True, type = statute, ParsedCitation.title = Some (trim g1),
                  title_en = None, article = art, paragraph_num = par, error = None\<rparr>)))
      | None \<Rightarrow>
     (case rx_exec ENGLISH_CITATION trimmed of
        Some m \<Rightarrow>
          (case snd m 3 of None \<Rightarrow> Inl TypeError | Some g3 \<Rightarrow>
             Inr \<lparr>valid = True, type = statute, ParsedCitation.title = None,
                  title_en = Some (trim g3), article = snd m 1,
                  paragraph_num = or_undefined (snd m 2), error = None\<rparr>)
      | None \<Rightarrow>
     (case rx_exec SHORT_CITATION trimmed of
        Some m \<Rightarrow>
          (case snd m 3 of None \<Rightarrow> Inl TypeError | Some g3 \<Rightarrow>
             Inr \<lparr>valid = True, type = statute, ParsedCitation.title = Some (trim g3),
                  title_en = None, article = snd m 1,
                  paragraph_num = or_undefined (snd m 2), error = None\<rparr>)
      | None \<Rightarrow>
     (case rx_exec BARE_CHINESE_ARTICLE trimmed of
        Some m \<Rightarrow>
          (case chinese_article (snd m 1) of Inl e \<Rightarrow> Inl e | Inr art \<Rightarrow>
          (case chinese_paragraph (snd m 2) of Inl e \<Rightarrow> Inl e | Inr par \<Rightarrow>
             Inr \<lparr>valid = True, type = statute, ParsedCitation.title = None, title_en = None,
                  article = art, paragraph_num = par, error = None\<rparr>))
      | None \<Rightarrow>
     (case rx_exec BARE_ENGLISH_ARTICLE trimmed of
        Some m \<Rightarrow>
          Inr \<lparr>valid = True, type = statute, ParsedCitation.title = None, title_en = None,
               article = snd m 1, paragraph_num = or_undefined (snd m 2), error = None\<rparr>
      | None \<Rightarrow> Inr (parse_failure trimmed))))))))"

section \<open>Provision extractor\<close>

text \<open>
  \<^verbatim>\<open>ParsedProvision\<close> of \<^verbatim>\<open>parser.ts\<close>; \<^verbatim>\<open>section\<close> carries a suffix, being a
  reserved word.
\<close>

record ParsedProvision =
  provision_ref :: jsstring
  section_field :: jsstring
  title :: jsstring
  content :: jsstring
  language :: jsstring

text \<open>
  The class \<^verbatim>\<open>[<numerals>\d]\<close> of the fourteen common numeral glyphs and the digits, then
  \<^verbatim>\<open>ARTICLE_PATTERN = /^[\s\u3000]*\u7b2c(...+)\u6761[\s\u3000]*/\<close> and
  \<^verbatim>\<open>CHAPTER_PATTERN = /^[\s\u3000]*\u7b2c(...+)[\u7ae0\u8282\u7f16]/\<close>; the last class is U+7AE0, U+8282,
  U+7F16. U+3000 is white space already.
\<close>

definition is_numeral_glyph :: "jschar \<Rightarrow> bool" where
  "is_numeral_glyph c \<longleftrightarrow>
     c \<in> set [19968, 20108, 19977, 22235, 20116, 20845, 19971, 20843, 20061, 21313, 30334,
              21315, 38646, 12295] \<or> is_digit c"

definition ARTICLE_PATTERN :: rx where
  "ARTICLE_PATTERN = rx_all
     [rx_star is_ws, rx_lit [31532], rx_group 1 (rx_plus is_numeral_glyph), rx_lit [26465],
      rx_star is_ws]"

definition CHAPTER_PATTERN :: rx where
  "CHAPTER_PATTERN = rx_all
     [rx_star is_ws, rx_lit [31532], rx_group 1 (rx_plus is_numeral_glyph),
      rx_cls (\<lambda>c. c = 31456 \<or> c = 33410 \<or> c = 32534)]"

text \<open>\<^verbatim>\<open>String(x)\<close> of a number that may be \<^verbatim>\<open>NaN\<close>.\<close>

definition String_of_number :: "int option \<Rightarrow> jsstring" where
  "String_of_number x = (case x of None \<Rightarrow> js ''NaN'' | Some n \<Rightarrow> String_of n)"

text \<open>\<^verbatim>\<open>parts.join(sep)\<close>.\<close>

fun join :: "jsstring \<Rightarrow> jsstring list \<Rightarrow> jsstring" where
  "join sep [] = []"
| "join sep [x] = x"
| "join sep (x # y # ys) = x @ sep @ join sep (y # ys)"

text \<open>
  \<^verbatim>\<open>String(arabicNum)\<close> for the captured numeral: \<^verbatim>\<open>parseInt\<close> when it is all digits
  (\<^verbatim>\<open>/^\d+$/\<close>), the numeral codec otherwise. The integer of the model is the number of
  the program as long as it is below \<open>2^53\<close>, which a numeral of at most 15 glyphs
  ensures; beyond, the program rounds, and the model is not meant to follow it.
\<close>

definition article_number :: "jsstring \<Rightarrow> jsstring" where
  "article_number numStr =
     (if numStr \<noteq> [] \<and> list_all is_digit numStr then String_of_number (parseInt numStr)
      else String_of (chineseToArabic numStr))"

text \<open>
  The two places where the open article is saved: it is pushed when its number is set and
  at least one line of content has been gathered.
\<close>

definition save_article ::
  "jsstring \<Rightarrow> ParsedProvision list \<Rightarrow> jsstring \<Rightarrow> jsstring list \<Rightarrow> ParsedProvision list" where
  "save_article lang provisions currentArticleNum currentArticleContent =
     (if currentArticleNum \<noteq> [] \<and> currentArticleContent \<noteq> [] then
        provisions @
          [\<lparr>provision_ref = currentArticleNum, section_field = currentArticleNum, title = [],
            content = trim (join [10] currentArticleContent), language = lang\<rparr>]
      else provisions)"

text \<open>
  The body of the loop over the paragraphs of \<^verbatim>\<open>parseNpcHtml\<close>. The state is the list
  of provisions, the number of the open article (empty when none is open) and its lines.
\<close>

definition extract_step ::
  "jsstring \<Rightarrow> ParsedProvision list \<times> jsstring \<times> jsstring list \<Rightarrow> jsstring
   \<Rightarrow> ParsedProvision list \<times> jsstring \<times> jsstring list" where
  "extract_step lang st para =
     (case st of (provisions, currentArticleNum, currentArticleContent) \<Rightarrow>
      (case rx_exec ARTICLE_PATTERN para of
         Some articleMatch \<Rightarrow>
           (let content = trim (fst articleMatch) in
            (save_article lang provisions currentArticleNum currentArticleContent,
             article_number (js_str (snd articleMatch 1)),
             if content \<noteq> [] then [content] else []))
       | None \<Rightarrow>
           if currentArticleNum \<noteq> [] then
             (if rx_exec CHAPTER_PATTERN para = None
              then (provisions, currentArticleNum, currentArticleContent @ [para])
              else (provisions, currentArticleNum, currentArticleContent))
           else (provisions, currentArticleNum, currentArticleContent)))"

text \<open>
  The loop over the paragraphs of \<^verbatim>\<open>parseNpcHtml\<close> and the saving of the last article
  after it: from the paragraphs, in document order, to the provisions.
\<close>

definition process_paragraphs :: "jsstring \<Rightarrow> jsstring list \<Rightarrow> ParsedProvision list" where
  "process_paragraphs lang paragraphs =
     (case foldl (extract_step lang) ([], [], []) paragraphs of
        (provisions, currentArticleNum, currentArticleContent) \<Rightarrow>
          save_article lang provisions currentArticleNum currentArticleContent)"

text \<open>
  The document. \<^verbatim>\<open>cheerio.load(html)\<close> is the work of the HTML library; the program only
  asks it, for a selector, for the selection \<^verbatim>\<open>$(selector)\<close>, and of a selection its
  \<^verbatim>\<open>length\<close>, its \<^verbatim>\<open>text()\<close> and the texts \<^verbatim>\<open>$(el).text()\<close> of the elements of
  \<^verbatim>\<open>find('p, div.p, span.p')\<close>, in document order. A loaded document is modelled as the
  function that gives these answers.
\<close>

record Selection =
  sel_length :: nat
  sel_text :: jsstring
  sel_found :: "jsstring list"

type_synonym document = "jsstring \<Rightarrow> Selection"

definition contentSelectors :: "jsstring list" where
  "contentSelectors =
     [js ''.article_content'', js ''.law_content'', js ''.content'', js ''#UCAP-CONTENT'',
      js ''.p_content'', js ''article'', js ''.main_content'', js ''body'']"

text \<open>
  The search for the container: the first selector whose selection is not empty and whose
  text, trimmed, has more than 100 code units; \<open>None\<close> is \<^verbatim>\<open>null\<close>.
\<close>

definition contentEl :: "document \<Rightarrow> Selection option" where
  "contentEl doc =
     find (\<lambda>el. sel_length el > 0 \<and> length (trim (sel_text el)) > 100) (map doc contentSelectors)"

text \<open>
  \<^verbatim>\<open>fullText.split(/[\n\r]+/)\<close>: the fields between the maximal runs of line feeds and
  carriage returns. The first argument is the field being read.
\<close>

function split_lines :: "jsstring \<Rightarrow> jsstring \<Rightarrow> jsstring list" where
  "split_lines cur [] = [cur]"
| "split_lines cur (c # cs) =
     (if c = 10 \<or> c = 13 then cur # split_lines [] (dropWhile (\<lambda>x. x = 10 \<or> x = 13) cs)
      else split_lines (cur @ [c]) cs)"
  by pat_completeness auto

termination
  by (relation "measure (\<lambda>(cur, s). length s)") (auto simp: less_Suc_eq_le length_dropWhile_le)

text \<open>
  The paragraphs of the container: the trimmed texts of the paragraph elements that are not
  empty; when there is none, the trimmed lines of the container's text that are not empty.
\<close>

definition paragraphs_of :: "Selection \<Rightarrow> jsstring list" where
  "paragraphs_of el =
     (let paragraphs = filter (\<lambda>t. length t > 0) (map trim (sel_found el))
      in if length paragraphs = 0
         then filter (\<lambda>l. length l > 0) (map trim (split_lines [] (sel_text el)))
         else paragraphs)"

text \<open>
  \<^verbatim>\<open>ParsedLaw\<close> of \<^verbatim>\<open>parser.ts\<close> and \<^verbatim>\<open>buildLaw\<close>. The fields \<^verbatim>\<open>id\<close>, \<^verbatim>\<open>type\<close>,
  \<^verbatim>\<open>title_en\<close> and \<^verbatim>\<open>provisions\<close> carry a suffix, their names being in use.
\<close>

datatype law_type = law_statute | law_administrative_regulation

datatype law_status = in_force | amended

record ParsedLaw =
  id_field :: jsstring
  type_field :: law_type
  title :: jsstring
  title_en_field :: jsstring
  short_name :: jsstring
  status :: law_status
  issued_date :: jsstring
  in_force_date :: jsstring
  url :: jsstring
  provisions_field :: "ParsedProvision list"
  language :: jsstring

definition buildLaw ::
  "jsstring \<Rightarrow> jsstring \<Rightarrow> jsstring \<Rightarrow> ParsedProvision list \<Rightarrow> jsstring \<Rightarrow> ParsedLaw" where
  "buildLaw lawId lawTitle lawTitleEn provisions lang =
     \<lparr>id_field = lawId, type_field = law_statute, title = lawTitle, title_en_field = lawTitleEn,
      short_name = [], status = in_force, issued_date = [], in_force_date = [], url = [],
      provisions_field = provisions, language = lang\<rparr>"

text \<open>
  \<^verbatim>\<open>parseNpcHtml\<close>, from the loaded document: without a container the law has no
  provisions; otherwise its provisions are those of the container's paragraphs.
\<close>

definition parseNpcHtml ::
  "document \<Rightarrow> jsstring \<Rightarrow> jsstring \<Rightarrow> jsstring \<Rightarrow> jsstring \<Rightarrow> ParsedLaw" where
  "parseNpcHtml doc lawId lawTitle lawTitleEn lang =
     (case contentEl doc of
        None \<Rightarrow> buildLaw lawId lawTitle lawTitleEn [] lang
      | Some el \<Rightarrow>
          buildLaw lawId lawTitle lawTitleEn (process_paragraphs lang (paragraphs_of el)) lang)"



section \<open>Deduplication of provisions\<close>

text \<open>
  \<^verbatim>\<open>ProvisionSeed\<close> of \<^verbatim>\<open>build-db.ts\<close>. The fields \<^verbatim>\<open>chapter\<close> and \<^verbatim>\<open>section\<close>
  carry a suffix here, their names being reserved words. An optional field that is absent
  (or \<^verbatim>\<open>null\<close>) is \<open>None\<close>; the type of \<^verbatim>\<open>metadata\<close> is left open.
\<close>

record 'm ProvisionSeed =
  provision_ref :: jsstring
  chapter_field :: "jsstring option"
  section_field :: jsstring
  title :: "jsstring option"
  content :: jsstring
  language :: "jsstring option"
  metadata :: "'m option"

record ProvisionDedupStats =
  duplicate_refs :: nat
  conflicting_duplicates :: nat

text \<open>
  \<^verbatim>\<open>text.replace(/\s+/g, ' ')\<close>: every maximal run of white space becomes one space.
  The flag says that the previous code unit was white space.
\<close>

fun collapse_ws :: "bool \<Rightarrow> jsstring \<Rightarrow> jsstring" where
  "collapse_ws prev [] = []"
| "collapse_ws prev (c # cs) =
     (if is_ws c then (if prev then collapse_ws True cs else 32 # collapse_ws True cs)
      else c # collapse_ws False cs)"

definition normalizeWhitespace :: "jsstring \<Rightarrow> jsstring" where
  "normalizeWhitespace text = trim (collapse_ws False text)"

text \<open>\<^verbatim>\<open>a ?? b\<close> on optional values.\<close>

definition nullish :: "'a option \<Rightarrow> 'a option \<Rightarrow> 'a option" where
  "nullish a b = (case a of None \<Rightarrow> b | Some x \<Rightarrow> Some x)"

definition pickPreferredProvision :: "'m ProvisionSeed \<Rightarrow> 'm ProvisionSeed \<Rightarrow> 'm ProvisionSeed" where
  "pickPreferredProvision existing incoming =
     (let existingContent = normalizeWhitespace (content existing);
          incomingContent = normalizeWhitespace (content incoming)
      in if length incomingContent > length existingContent
         then incoming\<lparr>title := nullish (title incoming) (title existing)\<rparr>
         else existing\<lparr>title := nullish (title existing) (title incoming)\<rparr>)"

text \<open>
  A JavaScript \<^verbatim>\<open>Map\<close> keeps its keys in insertion order, and \<^verbatim>\<open>set\<close> on a key
  that is present replaces the value where it stands: an association list.
\<close>

fun map_set :: "'k \<Rightarrow> 'v \<Rightarrow> ('k \<times> 'v) list \<Rightarrow> ('k \<times> 'v) list" where
  "map_set k v [] = [(k, v)]"
| "map_set k v ((k', v') # m) = (if k' = k then (k, v) # m else (k', v') # map_set k v m)"

definition provision_key :: "'m ProvisionSeed \<Rightarrow> jsstring" where
  "provision_key provision =
     provision_ref provision @ [58] @ (case language provision of None \<Rightarrow> [122, 104] | Some l \<Rightarrow> l)"

text \<open>The body of the loop of \<^verbatim>\<open>dedupeProvisions\<close>, on the map and the counters.\<close>

definition dedupe_step ::
  "('m ProvisionSeed) \<Rightarrow> (jsstring \<times> 'm ProvisionSeed) list \<times> ProvisionDedupStats
   \<Rightarrow> (jsstring \<times> 'm ProvisionSeed) list \<times> ProvisionDedupStats" where
  "dedupe_step provision st =
     (let byRef = fst st; stats = snd st; key = provision_key provision in
      case map_of byRef key of
        None \<Rightarrow>
          (map_set key (provision\<lparr>provision_ref := trim (provision_ref provision)\<rparr>) byRef, stats)
      | Some existing \<Rightarrow>
          (map_set key (pickPreferredProvision existing provision) byRef,
           \<lparr>duplicate_refs = duplicate_refs stats + 1,
            conflicting_duplicates =
              (if normalizeWhitespace (content existing) \<noteq> normalizeWhitespace (content provision)
               then conflicting_duplicates stats + 1 else conflicting_duplicates stats)\<rparr>))"

definition dedupeProvisions ::
  "'m ProvisionSeed list \<Rightarrow> 'm ProvisionSeed list \<times> ProvisionDedupStats" where
  "dedupeProvisions provisions =
     (let final = fold dedupe_step provisions ([], \<lparr>duplicate_refs = 0, conflicting_duplicates = 0\<rparr>)
      in (map snd (fst final), snd final))"

section \<open>Rate-limited fetcher\<close>


record FetchResult =
  status :: int
  body :: jsstring
  contentType :: jsstring





section \<open>Query normaliser\<close>

definition MAX_QUERY_LENGTH :: nat where
  "MAX_QUERY_LENGTH = 1000"

record FtsQueryVariants =
  primary :: jsstring
  fallback :: "jsstring option"

text \<open>
  \<^verbatim>\<open>\bW\b\<close> somewhere in the input, for a word \<open>W\<close> of word characters: no word
  character before it and none after it. The flag says that the previous code unit was a
  word character.
\<close>

fun has_word :: "jsstring \<Rightarrow> bool \<Rightarrow> jsstring \<Rightarrow> bool" where
  "has_word w prev [] = False"
| "has_word w prev (c # cs) =
     ((\<not> prev \<and> take (length w) (c # cs) = w \<and>
       (case drop (length w) (c # cs) of [] \<Rightarrow> True | d # _ \<Rightarrow> \<not> is_word d))
      \<or> has_word w (is_word c) cs)"

text \<open>\<^verbatim>\<open>EXPLICIT_FTS_SYNTAX.test(s)\<close> for \<^verbatim>\<open>/["""]|(\bAND\b)|(\bOR\b)|(\bNOT\b)|\*$/\<close>.\<close>

definition EXPLICIT_FTS_SYNTAX :: "jsstring \<Rightarrow> bool" where
  "EXPLICIT_FTS_SYNTAX s \<longleftrightarrow>
     34 \<in> set s \<or> has_word (js ''AND'') False s \<or> has_word (js ''OR'') False s
     \<or> has_word (js ''NOT'') False s \<or> (s \<noteq> [] \<and> last s = 42)"

text \<open>\<^verbatim>\<open>s.replace(/--/g, '')\<close>: the matches are taken from the left and do not overlap.\<close>

fun strip_dashes :: "jsstring \<Rightarrow> jsstring" where
  "strip_dashes (a # b # cs) =
     (if a = 45 \<and> b = 45 then strip_dashes cs else a # strip_dashes (b # cs))"
| "strip_dashes cs = cs"

definition straighten_quotes :: "jsstring \<Rightarrow> jsstring" where
  "straighten_quotes s = map (\<lambda>c. if c = 8220 \<or> c = 8221 then 34 else c) s"

definition balance_quotes :: "jsstring \<Rightarrow> jsstring" where
  "balance_quotes s = (if odd (length (filter (\<lambda>c. c = 34) s)) then s @ [34] else s)"

text \<open>
  \<^verbatim>\<open>sanitiseToken\<close> removes what is neither a letter nor a number (in any script) nor
  \<^verbatim>\<open>_\<close> nor \<^verbatim>\<open>-\<close>. Its pattern has the flag \<^verbatim>\<open>u\<close>, so it reads code points: a pair
  of surrogates is one character. The Unicode categories \<^verbatim>\<open>\p{L}\<close> and \<^verbatim>\<open>\p{N}\<close> are
  tables of the engine; they are the parameter \<open>LN\<close>, a predicate on code points.
\<close>

fun sanitiseToken :: "(nat \<Rightarrow> bool) \<Rightarrow> jsstring \<Rightarrow> jsstring" where
  "sanitiseToken LN [] = []"
| "sanitiseToken LN [c] = (if LN c \<or> c = 95 \<or> c = 45 then [c] else [])"
| "sanitiseToken LN (h # l # cs) =
     (if 55296 \<le> h \<and> h \<le> 56319 \<and> 56320 \<le> l \<and> l \<le> 57343 then
        (if LN (65536 + (h - 55296) * 1024 + (l - 56320)) then h # l # sanitiseToken LN cs
         else sanitiseToken LN cs)
      else if LN h \<or> h = 95 \<or> h = 45 then h # sanitiseToken LN (l # cs)
      else sanitiseToken LN (l # cs))"

text \<open>
  The pieces between white space. \<^verbatim>\<open>split(/\s+/)\<close> followed by the filter on non-empty
  tokens gives the non-empty pieces between single white-space units.
\<close>

fun split_ws :: "jsstring \<Rightarrow> jsstring \<Rightarrow> jsstring list" where
  "split_ws cur [] = [cur]"
| "split_ws cur (c # cs) = (if is_ws c then cur # split_ws [] cs else split_ws (cur @ [c]) cs)"

definition buildFtsQueryVariants :: "(nat \<Rightarrow> bool) \<Rightarrow> jsstring \<Rightarrow> FtsQueryVariants" where
  "buildFtsQueryVariants LN query =
     (let trimmed = take MAX_QUERY_LENGTH (trim query) in
      if length trimmed = 0 then \<lparr>primary = [34, 34], fallback = None\<rparr>
      else if EXPLICIT_FTS_SYNTAX trimmed then
        (let normalised =
               take MAX_QUERY_LENGTH
                 (strip_dashes (filter (\<lambda>c. c \<noteq> 59) (straighten_quotes trimmed)))
         in \<lparr>primary = balance_quotes normalised, fallback = None\<rparr>)
      else
        (let tokens =
               filter (\<lambda>t. length t > 0)
                 (map (sanitiseToken LN) (filter (\<lambda>t. length t > 0) (split_ws [] trimmed)))
         in if length tokens = 0 then \<lparr>primary = [34, 34], fallback = None\<rparr>
            else \<lparr>primary = join [32] (map (\<lambda>t. [34] @ t @ [34, 42]) tokens),
                  fallback = Some (join (js '' OR '') (map (\<lambda>t. t @ [42]) tokens))\<rparr>))"

text \<open>The comment sequence \<^verbatim>\<open>--\<close> occurs in the string.\<close>

fun has_comment :: "jsstring \<Rightarrow> bool" where
  "has_comment (a # b # cs) = ((a = 45 \<and> b = 45) \<or> has_comment (b # cs))"
| "has_comment cs = False"

section \<open>Notions for the citation round trip\<close>

text \<open>
  The titles for which formatting and parsing agree. A law title has no line terminator and
  ends in U+6CD5, in U+5178 or in U+6761 U+4F8B, after at least one other glyph: the shape the
  Chinese pattern asks of a name. A plain title is not empty, has no line terminator, neither
  begins nor ends with white space or a comma, does not begin with a digit nor, in any
  letter case, with \<^verbatim>\<open>Par\<close> (which the optional paragraph part of the patterns would
  read), and does not contain U+7B2C (which opens a Chinese reference).
\<close>

definition law_title :: "jsstring \<Rightarrow> bool" where
  "law_title T \<longleftrightarrow>
     list_all is_dot T \<and>
     ((2 \<le> length T \<and> (last T = 27861 \<or> last T = 20856)) \<or>
      (3 \<le> length T \<and> drop (length T - 2) T = [26465, 20363]))"

primrec ci_prefix :: "jsstring \<Rightarrow> jsstring \<Rightarrow> bool" where
  "ci_prefix [] s = True"
| "ci_prefix (a # as) s = (case s of [] \<Rightarrow> False | x # xs \<Rightarrow> ci a x \<and> ci_prefix as xs)"

definition plain_title :: "jsstring \<Rightarrow> bool" where
  "plain_title T \<longleftrightarrow>
     T \<noteq> [] \<and> list_all is_dot T \<and> \<not> is_ws (hd T) \<and> \<not> is_ws (last T) \<and> hd T \<noteq> 44 \<and>
     last T \<noteq> 44 \<and> \<not> is_digit (hd T) \<and> \<not> ci_prefix (js ''Par'') T \<and> 31532 \<notin> set T"

text \<open>The thirteen glyphs that \<^verbatim>\<open>arabicToChinese\<close> writes.\<close>

definition numeral_glyph :: "jschar \<Rightarrow> bool" where
  "numeral_glyph g \<longleftrightarrow> g \<in> set [38646, 19968, 20108, 19977, 22235, 20116, 20845, 19971, 20843,
     20061, 21313, 30334, 21315]"

text \<open>
  Properties of continuations, for reasoning about a pattern without running it.
  \<open>rx_inv P k\<close>: every success of \<open>k\<close> satisfies \<open>P\<close>, a relation between the input, the
  captures on entry and the result. \<open>rx_tr P a\<close>: the matcher \<open>a\<close> hands such a property
  on from its continuation to itself; this holds for properties that stay true when the
  input grows at the front (\<open>rx_up\<close>) and, under a group \<open>n\<close>, when the capture \<open>n\<close>
  is forgotten (\<open>rx_stable\<close>). \<open>succeeds k s\<close>: \<open>k\<close> matches \<open>s\<close> whatever the captures.
\<close>

definition rx_inv :: "(jsstring \<Rightarrow> caps \<Rightarrow> jsstring \<times> caps \<Rightarrow> bool) \<Rightarrow> rx_cont \<Rightarrow> bool" where
  "rx_inv P k \<longleftrightarrow> (\<forall>s c r. k s c = Some r \<longrightarrow> P s c r)"

definition rx_up :: "(jsstring \<Rightarrow> caps \<Rightarrow> jsstring \<times> caps \<Rightarrow> bool) \<Rightarrow> bool" where
  "rx_up P \<longleftrightarrow> (\<forall>x s c r. P s c r \<longrightarrow> P (x # s) c r)"

definition rx_stable :: "(jsstring \<Rightarrow> caps \<Rightarrow> jsstring \<times> caps \<Rightarrow> bool) \<Rightarrow> nat \<Rightarrow> bool" where
  "rx_stable P n \<longleftrightarrow> (\<forall>s c x r. P s (c(n \<mapsto> x)) r \<longrightarrow> P s c r)"

definition rx_tr :: "(jsstring \<Rightarrow> caps \<Rightarrow> jsstring \<times> caps \<Rightarrow> bool) \<Rightarrow> rx \<Rightarrow> bool" where
  "rx_tr P a \<longleftrightarrow> (\<forall>k. rx_inv P k \<longrightarrow> rx_inv P (a k))"

definition succeeds :: "rx_cont \<Rightarrow> jsstring \<Rightarrow> bool" where
  "succeeds k s \<longleftrightarrow> (\<forall>c. k s c \<noteq> None)"

text \<open>
  The final continuation of \<open>rx_exec\<close>, and two properties: the captures 1 and 2 are the
  ones on entry; the input contains U+7B2C.
\<close>

abbreviation kf :: rx_cont where
  "kf \<equiv> (\<lambda>s c. Some (s, c))"

abbreviation keeps12 :: "jsstring \<Rightarrow> caps \<Rightarrow> jsstring \<times> caps \<Rightarrow> bool" where
  "keeps12 \<equiv> (\<lambda>s c r. snd r 1 = c 1 \<and> snd r 2 = c 2)"

abbreviation has_marker :: "jsstring \<Rightarrow> caps \<Rightarrow> jsstring \<times> caps \<Rightarrow> bool" where
  "has_marker \<equiv> (\<lambda>s c r. 31532 \<in> set s)"

text \<open>
  Names for parts of three patterns: what follows the article and the paragraph in
  \<open>CHINESE_CITATION\<close>, in \<open>ENGLISH_CITATION\<close> and in \<open>SHORT_CITATION\<close>, and the optional
  paragraph part of the last two.
\<close>

definition CHINESE_TAIL :: rx where
  "CHINESE_TAIL = rx_all
     [rx_star is_ws, rx_opt ANY_COMMA, rx_star is_ws, rx_opt (rx_lit PRC_PREFIX),
      rx_group 3 (rx_lazy_plus is_dot), LAW_SUFFIX, rx_eol]"

definition ENGLISH_PARA :: rx where
  "ENGLISH_PARA = rx_all
     [rx_star is_ws, rx_opt COMMA, rx_star is_ws, rx_lit_i (js ''Paragraph''), rx_plus is_ws,
      rx_group 2 (rx_plus is_digit)]"

definition ENGLISH_TAIL :: rx where
  "ENGLISH_TAIL = rx_all
     [rx_star is_ws, rx_opt COMMA, rx_plus is_ws, rx_group 3 (rx_lazy_plus is_dot), rx_eol]"

definition SHORT_PARA :: rx where
  "SHORT_PARA = rx_all
     [rx_star is_ws, rx_opt COMMA, rx_star is_ws,
      rx_opt (rx_all [rx_lit_i (js ''Par''), rx_opt (rx_cls (ci 97)), rx_opt DOT, rx_star is_ws]),
      rx_group 2 (rx_plus is_digit)]"

definition SHORT_TAIL :: rx where
  "SHORT_TAIL = rx_all
     [rx_star is_ws, rx_opt COMMA, rx_plus is_ws,
      rx_group 3 (rx_lazy_plus is_dot),
      rx_opt (rx_all
        [rx_plus is_ws,
         rx_group 4 (rx_all [rx_cls is_digit, rx_cls is_digit, rx_cls is_digit, rx_cls is_digit])]),
      rx_eol]"

section \<open>Properties of the numeral codec\<close>

lemma dropWhile_id: "xs \<noteq> [] \<Longrightarrow> \<not> P (hd xs) \<Longrightarrow> dropWhile P xs = xs"
  by (cases xs) auto

lemma trim_id: "s \<noteq> [] \<Longrightarrow> \<not> is_ws (hd s) \<Longrightarrow> \<not> is_ws (last s) \<Longrightarrow> trim s = s"
  by (simp add: trim_def dropWhile_id hd_rev)

lemma digit_cases: "1 \<le> d \<Longrightarrow> d \<le> 9 \<Longrightarrow> d \<in> {1, 2, 3, 4, 5, 6, 7, 8, (9::int)}"
  by auto

lemma digit_glyph:
  assumes "1 \<le> d" "d \<le> 9"
  shows "ARABIC_TO_CHINESE ! nat d = [hd (ARABIC_TO_CHINESE ! nat d)]"
    and "CHINESE_DIGITS (hd (ARABIC_TO_CHINESE ! nat d)) = Some d"
    and "\<not> is_ws (hd (ARABIC_TO_CHINESE ! nat d))"
  using digit_cases [OF assms]
  by (elim insertE; simp add: ARABIC_TO_CHINESE_def CHINESE_DIGITS_def is_ws_def)+

lemma not_ws_glyphs: "\<not> is_ws 21313" "\<not> is_ws 30334" "\<not> is_ws 21315" "\<not> is_ws 38646"
  by (simp_all add: is_ws_def)

lemma tab_glyphs:
  "CHINESE_DIGITS 21313 = None" "CHINESE_DIGITS 30334 = None" "CHINESE_DIGITS 21315 = None"
  "CHINESE_DIGITS 38646 = Some 0"
  "CHINESE_MULTIPLIERS 21313 = Some 10" "CHINESE_MULTIPLIERS 30334 = Some 100"
  "CHINESE_MULTIPLIERS 21315 = Some 1000"
  by (simp_all add: CHINESE_DIGITS_def CHINESE_MULTIPLIERS_def)

lemma trim_cons_id: "\<not> is_ws x \<Longrightarrow> \<not> is_ws (last (x # xs)) \<Longrightarrow> trim (x # xs) = x # xs"
  by (rule trim_id) simp_all

lemma decimal_split:
  "(n::int) = 1000 * (n div 1000) + 100 * ((n mod 1000) div 100) + 10 * ((n mod 100) div 10) + n mod 10"
proof -
  have e1: "n = 1000 * (n div 1000) + n mod 1000" by simp
  have e2: "n mod 1000 = 100 * (n mod 1000 div 100) + n mod 1000 mod 100" by simp
  have e3: "n mod 1000 mod 100 = n mod 100" by (simp add: mod_mod_cancel)
  have e4: "n mod 100 = 10 * (n mod 100 div 10) + n mod 100 mod 10" by simp
  have e5: "n mod 100 mod 10 = n mod 10" by (simp add: mod_mod_cancel)
  show ?thesis using e1 e2 e3 e4 e5 by linarith
qed

lemma chineseToArabic_arabicToChinese:
  assumes "1 \<le> n" "n \<le> 9999"
  shows "chineseToArabic (arabicToChinese n) = n"
proof -
  define a where "a = n div 1000"
  define b where "b = (n mod 1000) div 100"
  define c where "c = (n mod 100) div 10"
  define d where "d = n mod 10"
  define ga where "ga = hd (ARABIC_TO_CHINESE ! nat a)"
  define gb where "gb = hd (ARABIC_TO_CHINESE ! nat b)"
  define gc where "gc = hd (ARABIC_TO_CHINESE ! nat c)"
  define gd where "gd = hd (ARABIC_TO_CHINESE ! nat d)"
  have rng: "0 \<le> a" "a \<le> 9" "0 \<le> b" "b \<le> 9" "0 \<le> c" "c \<le> 9" "0 \<le> d" "d \<le> 9"
    using assms unfolding a_def b_def c_def d_def by auto
  have n: "n = 1000 * a + 100 * b + 10 * c + d"
    unfolding a_def b_def c_def d_def by (rule decimal_split)
  have ga: "a > 0 \<Longrightarrow> ARABIC_TO_CHINESE ! nat a = [ga] \<and> CHINESE_DIGITS ga = Some a \<and> \<not> is_ws ga"
    using digit_glyph [of a] rng unfolding ga_def by simp
  have gb: "b > 0 \<Longrightarrow> ARABIC_TO_CHINESE ! nat b = [gb] \<and> CHINESE_DIGITS gb = Some b \<and> \<not> is_ws gb"
    using digit_glyph [of b] rng unfolding gb_def by simp
  have gc: "c > 0 \<Longrightarrow> ARABIC_TO_CHINESE ! nat c = [gc] \<and> CHINESE_DIGITS gc = Some c \<and> \<not> is_ws gc"
    using digit_glyph [of c] rng unfolding gc_def by simp
  have gd: "d > 0 \<Longrightarrow> ARABIC_TO_CHINESE ! nat d = [gd] \<and> CHINESE_DIGITS gd = Some d \<and> \<not> is_ws gd"
    using digit_glyph [of d] rng unfolding gd_def by simp
  have shape: "arabicToChinese n =
     concat ((if a > 0 then [ARABIC_TO_CHINESE ! nat a @ [21315]] else []) @
             (if b > 0 then [ARABIC_TO_CHINESE ! nat b @ [30334]]
                  else if a > 0 \<and> (c > 0 \<or> d > 0) then [[38646]] else []) @
             (if c > 0 then
                    (if c = 1 \<and> a = 0 \<and> b = 0 then [[21313]]
                     else [ARABIC_TO_CHINESE ! nat c @ [21313]])
                  else if b > 0 \<and> d > 0 then [[38646]] else []) @
             (if d > 0 then [ARABIC_TO_CHINESE ! nat d] else []))"
    using assms unfolding arabicToChinese_def a_def b_def c_def d_def Let_def by simp
  have nz: "a > 0 \<or> b > 0 \<or> c > 0 \<or> d > 0" using assms n by auto
  show ?thesis
  proof (cases "a > 0")
    case a: True
    show ?thesis
    proof (cases "b > 0")
      case b: True
      show ?thesis
        unfolding shape
        using a b rng ga gb gc gd n
        by (cases "c > 0"; cases "d > 0")
           (simp_all add: chineseToArabic_def trim_cons_id not_ws_glyphs tab_glyphs)
    next
      case b: False
      show ?thesis
        unfolding shape
        using a b rng ga gb gc gd n
        by (cases "c > 0"; cases "d > 0")
           (simp_all add: chineseToArabic_def trim_cons_id not_ws_glyphs tab_glyphs)
    qed
  next
    case a: False
    show ?thesis
    proof (cases "b > 0")
      case b: True
      show ?thesis
        unfolding shape
        using a b rng ga gb gc gd n
        by (cases "c > 0"; cases "d > 0")
           (simp_all add: chineseToArabic_def trim_cons_id not_ws_glyphs tab_glyphs)
    next
      case b: False
      show ?thesis
        unfolding shape
        using a b rng ga gb gc gd nz n
        by (cases "c > 0"; cases "d > 0"; cases "c = 1")
           (simp_all add: chineseToArabic_def trim_cons_id not_ws_glyphs tab_glyphs)
    qed
  qed
qed

text \<open>
  Claim C1. For every integer \<open>n\<close> from 1 to 9999, converting \<open>n\<close> to a numeral string with
  \<^verbatim>\<open>arabicToChinese\<close> and back with \<^verbatim>\<open>chineseToArabic\<close> gives \<open>n\<close> again.
\<close>

theorem numeral_roundtrip:
  "1 \<le> n \<Longrightarrow> n \<le> 9999 \<Longrightarrow> chineseToArabic (arabicToChinese n) = n"
  by (rule chineseToArabic_arabicToChinese)

theorem numeral_roundtrip_witness:
  "(1::int) \<le> 103 \<and> (103::int) \<le> 9999 \<and> chineseToArabic (arabicToChinese 103) = 103"
  using numeral_roundtrip [of 103] by simp


lemma digit_nonneg: "CHINESE_DIGITS c = Some d \<Longrightarrow> 0 \<le> d"
  by (auto simp: CHINESE_DIGITS_def split: if_splits)

lemma multiplier_nonneg: "CHINESE_MULTIPLIERS c = Some m \<Longrightarrow> 0 \<le> m"
  by (auto simp: CHINESE_MULTIPLIERS_def split: if_splits)

lemma recognised_not_ws: "recognised c \<Longrightarrow> \<not> is_ws c"
  by (auto simp: recognised_def CHINESE_DIGITS_def CHINESE_MULTIPLIERS_def is_ws_def split: if_splits)

lemma scan_numeral_nonneg:
  "0 \<le> r \<Longrightarrow> 0 \<le> cur \<Longrightarrow> 0 \<le> scan_numeral i r cur lm cs"
proof (induction cs arbitrary: i r cur lm)
  case Nil
  then show ?case by simp
next
  case (Cons c cs)
  then show ?case
    by (auto split: option.splits dest: digit_nonneg multiplier_nonneg)
qed

lemma scan_numeral_skip:
  "\<not> recognised c \<Longrightarrow> scan_numeral i r cur lm (c # cs) = scan_numeral (i + 1) r cur lm cs"
  by (simp add: recognised_def)

lemma scan_numeral_filter_pos:
  "0 < i \<Longrightarrow> 0 < j \<Longrightarrow>
   scan_numeral i r cur lm cs = scan_numeral j r cur lm' (filter recognised cs)"
proof (induction cs arbitrary: i j r cur lm lm')
  case Nil
  then show ?case by simp
next
  case (Cons c cs)
  show ?case
  proof (cases "recognised c")
    case False
    then show ?thesis
      using Cons.IH [of "i + 1" j r cur lm lm'] Cons.prems by (simp add: recognised_def)
  next
    case True
    show ?thesis
    proof (cases "CHINESE_DIGITS c")
      case (Some d)
      then show ?thesis
        using True Cons.IH [of "i + 1" "j + 1" r d lm lm'] by simp
    next
      case None
      then obtain m where m: "CHINESE_MULTIPLIERS c = Some m"
        using True by (auto simp: recognised_def)
      show ?thesis
        using True None m Cons.prems Cons.IH [of "i + 1" "j + 1" "r + cur * m" 0 m m] by simp
    qed
  qed
qed

lemma scan_numeral_filter:
  "(case filter recognised cs of [] \<Rightarrow> True | c # _ \<Rightarrow> CHINESE_MULTIPLIERS c \<noteq> Some 10) \<Longrightarrow>
   scan_numeral i r cur lm cs = scan_numeral j r cur lm' (filter recognised cs)"
proof (induction cs arbitrary: i j r cur lm lm')
  case Nil
  then show ?case by simp
next
  case (Cons c cs)
  show ?case
  proof (cases "recognised c")
    case False
    then show ?thesis
      using Cons.IH [of "i + 1" r cur lm j lm'] Cons.prems by (simp add: recognised_def)
  next
    case True
    show ?thesis
    proof (cases "CHINESE_DIGITS c")
      case (Some d)
      then show ?thesis
        using True scan_numeral_filter_pos [of "i + 1" "j + 1" r d lm cs lm'] 
        by simp
    next
      case None
      then obtain m where m: "CHINESE_MULTIPLIERS c = Some m"
        using True by (auto simp: recognised_def)
      have "m \<noteq> 10" using Cons.prems True m by simp
      then show ?thesis
        using True None m scan_numeral_filter_pos [of "i + 1" "j + 1" "r + cur * m" 0 m cs m] by simp
    qed
  qed
qed

lemma trim_recognised: "trim (filter recognised s) = filter recognised s"
proof (cases "filter recognised s = []")
  case True
  then show ?thesis by (simp add: trim_def)
next
  case False
  have "\<forall>c \<in> set (filter recognised s). \<not> is_ws c"
    by (auto dest: recognised_not_ws)
  then show ?thesis
    using False by (intro trim_id) (auto simp: hd_in_set last_in_set simp del: set_filter)
qed

lemma filter_dropWhile_ws: "filter recognised (dropWhile is_ws s) = filter recognised s"
  by (induction s) (auto dest: recognised_not_ws)

lemma filter_trim: "filter recognised (trim s) = filter recognised s"
proof -
  have "filter recognised (rev (dropWhile is_ws (rev (dropWhile is_ws s))))
        = rev (filter recognised (dropWhile is_ws (rev (dropWhile is_ws s))))"
    by (simp add: rev_filter)
  also have "\<dots> = rev (filter recognised (rev (dropWhile is_ws s)))"
    by (simp add: filter_dropWhile_ws)
  also have "\<dots> = filter recognised (dropWhile is_ws s)"
    by (simp add: rev_filter)
  finally show ?thesis by (simp add: trim_def filter_dropWhile_ws)
qed

lemma chineseToArabic_scan:
  assumes "case filter recognised s of [] \<Rightarrow> True | c # _ \<Rightarrow> CHINESE_MULTIPLIERS c \<noteq> Some 10"
  shows "chineseToArabic s = scan_numeral 0 0 0 1 (trim s)"
proof (cases "trim s")
  case Nil
  then show ?thesis by (simp add: chineseToArabic_def)
next
  case (Cons c cs)
  have H: "case filter recognised (c # cs) of [] \<Rightarrow> True | c # _ \<Rightarrow> CHINESE_MULTIPLIERS c \<noteq> Some 10"
    using assms filter_trim [of s] Cons by simp
  show ?thesis
  proof (cases cs)
    case Nil
    have "CHINESE_DIGITS c = None \<Longrightarrow> c = 21313 \<Longrightarrow> False"
      using H Nil by (simp add: recognised_def CHINESE_MULTIPLIERS_def)
    moreover have "CHINESE_DIGITS c = None \<Longrightarrow> CHINESE_MULTIPLIERS c = Some 10 \<Longrightarrow> False"
      using H Nil by (simp add: recognised_def)
    ultimately show ?thesis
      using Nil \<open>trim s = c # cs\<close>
      by (auto simp: chineseToArabic_def split: option.splits)
  next
    case (Cons c' cs')
    then show ?thesis using \<open>trim s = c # cs\<close> by (simp add: chineseToArabic_def)
  qed
qed

text \<open>
  Claim C7, as amended. \<^verbatim>\<open>chineseToArabic\<close> is total and returns a non-negative integer
  for every string. A glyph of neither table leaves the accumulated result and the pending
  digit as they are, and the scan goes on; it still takes a position. So the result is that
  of the string with the unrecognised glyphs removed whenever the first recognised glyph is
  not a ten (U+5341 or U+62FE): a ten is read as the value 10 only at index 0, and alone
  only in its common form.
\<close>

theorem chineseToArabic_lenient:
  "0 \<le> chineseToArabic s \<and>
   (\<not> recognised c \<longrightarrow>
      scan_numeral i r cur lm (c # cs) = scan_numeral (i + 1) r cur lm cs) \<and>
   ((case filter recognised s of [] \<Rightarrow> True | g # _ \<Rightarrow> CHINESE_MULTIPLIERS g \<noteq> Some 10) \<longrightarrow>
      chineseToArabic s = chineseToArabic (filter recognised s))"
proof (intro conjI impI)
  show "0 \<le> chineseToArabic s"
    by (auto simp: chineseToArabic_def Let_def scan_numeral_nonneg split: option.splits
             dest: digit_nonneg)
next
  assume "\<not> recognised c"
  then show "scan_numeral i r cur lm (c # cs) = scan_numeral (i + 1) r cur lm cs"
    by (rule scan_numeral_skip)
next
  let ?f = "filter recognised s"
  assume H: "case ?f of [] \<Rightarrow> True | g # _ \<Rightarrow> CHINESE_MULTIPLIERS g \<noteq> Some 10"
  then have Ht: "case filter recognised (trim s) of [] \<Rightarrow> True | g # _ \<Rightarrow> CHINESE_MULTIPLIERS g \<noteq> Some 10"
    by (simp add: filter_trim)
  have Hf: "case filter recognised ?f of [] \<Rightarrow> True | g # _ \<Rightarrow> CHINESE_MULTIPLIERS g \<noteq> Some 10"
    using H by simp
  have "chineseToArabic s = scan_numeral 0 0 0 1 (trim s)"
    using H by (rule chineseToArabic_scan)
  also have "\<dots> = scan_numeral 0 0 0 1 (filter recognised (trim s))"
    using Ht by (rule scan_numeral_filter)
  also have "\<dots> = scan_numeral 0 0 0 1 (trim ?f)"
    by (simp add: filter_trim trim_recognised)
  also have "\<dots> = chineseToArabic ?f"
    using Hf by (rule chineseToArabic_scan [symmetric])
  finally show "chineseToArabic s = chineseToArabic ?f" .
qed

theorem chineseToArabic_lenient_witness:
  "chineseToArabic [97, 20108, 21313, 32, 19968] = 21 \<and>
   chineseToArabic (filter recognised [97, 20108, 21313, 32, 19968]) = 21 \<and>
   scan_numeral 1 0 2 1 (97 # [21313]) = scan_numeral 2 0 2 1 [21313]"
  using chineseToArabic_lenient [of "[97, 20108, 21313, 32, 19968]" 97 1 0 2 1 "[21313]"]
  by (simp add: chineseToArabic_def trim_def is_ws_def recognised_def CHINESE_DIGITS_def
        CHINESE_MULTIPLIERS_def)

text \<open>
  The claim as stated fails on the string of \<open>a\<close>, U+5341, U+4E00: the scan gives 1,
  and 11 once the \<open>a\<close> is removed.
\<close>

theorem chineseToArabic_filter_counterexample:
  "chineseToArabic [97, 21313, 19968] = 1 \<and>
   chineseToArabic (filter recognised [97, 21313, 19968]) = 11"
  by (simp add: chineseToArabic_def trim_def is_ws_def recognised_def CHINESE_DIGITS_def
        CHINESE_MULTIPLIERS_def)


section \<open>Properties of the citation formatter\<close>

text \<open>
  Claim C10. \<^verbatim>\<open>formatCitation\<close> returns the empty string for every citation whose
  \<open>valid\<close> flag is false or whose article is absent, whatever the format.
\<close>

theorem formatCitation_invalid_empty:
  "\<not> valid parsed \<or> article parsed = None \<Longrightarrow> formatCitation parsed format = []"
  by (auto simp: formatCitation_def truthy_def)

theorem formatCitation_invalid_empty_witness:
  "formatCitation \<lparr>valid = False, type = unknown, ParsedCitation.title = Some [99, 115, 108], title_en = None,
      article = Some [51], paragraph_num = None, error = None\<rparr> Chinese = []"
  using formatCitation_invalid_empty [of "\<lparr>valid = False, type = unknown, ParsedCitation.title = Some [99, 115, 108],
      title_en = None, article = Some [51], paragraph_num = None, error = None\<rparr>" Chinese]
  by simp

section \<open>Properties of the deduplication\<close>

lemma map_of_map_set: "map_of (map_set k v m) k = Some v"
  by (induction m) auto

text \<open>
  Claim C5, as amended. When the loop meets a provision whose key the map already holds, the
  map then holds for that key the candidate with the longer white-space-normalised content,
  the holder on a tie. Its title is its own when it has one, the empty string included;
  only when its title is absent (\<^verbatim>\<open>undefined\<close> or \<^verbatim>\<open>null\<close>) is the title of the
  other candidate taken over.
\<close>

theorem dedupe_merge_policy:
  "map_of byRef (provision_key p) = Some e \<Longrightarrow>
   map_of (fst (dedupe_step p (byRef, st))) (provision_key p) = Some (pickPreferredProvision e p) \<and>
   (length (normalizeWhitespace (content p)) > length (normalizeWhitespace (content e)) \<longrightarrow>
      pickPreferredProvision e p = p\<lparr>title := title (pickPreferredProvision e p)\<rparr> \<and>
      title (pickPreferredProvision e p) = (case title p of None \<Rightarrow> title e | Some t \<Rightarrow> Some t)) \<and>
   (length (normalizeWhitespace (content p)) \<le> length (normalizeWhitespace (content e)) \<longrightarrow>
      pickPreferredProvision e p = e\<lparr>title := title (pickPreferredProvision e p)\<rparr> \<and>
      title (pickPreferredProvision e p) = (case title e of None \<Rightarrow> title p | Some t \<Rightarrow> Some t))"
  by (simp add: dedupe_step_def map_of_map_set pickPreferredProvision_def Let_def nullish_def)

theorem dedupe_merge_policy_witness:
  "title (pickPreferredProvision
      \<lparr>provision_ref = [49], chapter_field = None, section_field = [49], title = None,
       content = [97, 32, 32, 98], language = None, metadata = None :: unit option\<rparr>
      \<lparr>provision_ref = [49], chapter_field = None, section_field = [49], title = Some [84],
       content = [97, 32, 98], language = None, metadata = None\<rparr>) = Some [84]"
  using dedupe_merge_policy [of
      "[([49, 58, 122, 104], \<lparr>provision_ref = [49], chapter_field = None, section_field = [49], title = None,
       content = [97, 32, 32, 98], language = None, metadata = None :: unit option\<rparr>)]"
      "\<lparr>provision_ref = [49], chapter_field = None, section_field = [49], title = Some [84],
       content = [97, 32, 98], language = None, metadata = None\<rparr>"
      "\<lparr>provision_ref = [49], chapter_field = None, section_field = [49], title = None,
       content = [97, 32, 32, 98], language = None, metadata = None :: unit option\<rparr>"]
  by (simp add: provision_key_def normalizeWhitespace_def trim_def is_ws_def)

text \<open>
  The claim as stated fails when the winner's title is the empty string: the holder wins with
  the longer content, its title is \<^verbatim>\<open>''\<close>, the incoming title \<^verbatim>\<open>'T'\<close> is not taken.
\<close>

theorem dedupe_empty_title_counterexample:
  "title (pickPreferredProvision
      \<lparr>provision_ref = [49], chapter_field = None, section_field = [49], title = Some [],
       content = [97, 97], language = None, metadata = None :: unit option\<rparr>
      \<lparr>provision_ref = [49], chapter_field = None, section_field = [49], title = Some [84],
       content = [97], language = None, metadata = None\<rparr>) = Some []"
  by (simp add: pickPreferredProvision_def normalizeWhitespace_def trim_def is_ws_def nullish_def)

text \<open>
  Claim C3, on the code. The key is built from the reference as it comes, the stored
  reference is trimmed. The references \<^verbatim>\<open>'1'\<close> and \<^verbatim>\<open>' 1'\<close> have two keys, so the
  first pass keeps both provisions and gives both the reference \<^verbatim>\<open>'1'\<close>; a second pass
  merges them into one. Applying the function twice is not applying it once.
\<close>

theorem dedupe_not_idempotent:
  "fst (dedupeProvisions
     [\<lparr>provision_ref = [49], chapter_field = None, section_field = [49], title = None,
       content = [97], language = None, metadata = None :: unit option\<rparr>,
      \<lparr>provision_ref = [32, 49], chapter_field = None, section_field = [49], title = None,
       content = [98, 98], language = None, metadata = None\<rparr>]) =
     [\<lparr>provision_ref = [49], chapter_field = None, section_field = [49], title = None,
       content = [97], language = None, metadata = None\<rparr>,
      \<lparr>provision_ref = [49], chapter_field = None, section_field = [49], title = None,
       content = [98, 98], language = None, metadata = None\<rparr>] \<and>
   fst (dedupeProvisions
     [\<lparr>provision_ref = [49], chapter_field = None, section_field = [49], title = None,
       content = [97], language = None, metadata = None :: unit option\<rparr>,
      \<lparr>provision_ref = [49], chapter_field = None, section_field = [49], title = None,
       content = [98, 98], language = None, metadata = None\<rparr>]) =
     [\<lparr>provision_ref = [49], chapter_field = None, section_field = [49], title = None,
       content = [98, 98], language = None, metadata = None\<rparr>]"
  by (simp add: dedupeProvisions_def dedupe_step_def provision_key_def pickPreferredProvision_def
        normalizeWhitespace_def trim_def is_ws_def nullish_def)

section \<open>Properties of the fetcher\<close>





section \<open>Properties of the extractor\<close>

lemmas rx_defs = rx_exec_def rx_alt_def rx_opt_def rx_plus_def rx_lazy_plus_def rx_group_def
  is_dot_def is_alpha_def is_word_def is_digit_def is_ws_def ci_def js_def
  LAW_SUFFIX_def COMMA_def ANY_COMMA_def DOT_def PRC_PREFIX_def








text \<open>Before the first article marker nothing is gathered.\<close>

lemma foldl_extract_closed:
  assumes "list_all (\<lambda>q. rx_exec ARTICLE_PATTERN q = None) qs"
  shows "foldl (extract_step lang) (pv, [], lines) qs = (pv, [], lines)"
  using assms by (induction qs) (simp_all add: extract_step_def)

lemma process_paragraphs_no_marker:
  assumes "list_all (\<lambda>q. rx_exec ARTICLE_PATTERN q = None) qs"
  shows "process_paragraphs lang qs = []"
  using assms by (simp add: process_paragraphs_def foldl_extract_closed save_article_def)


text \<open>The two paragraphs of the scenario.\<close>

lemma scenario_matches:
  "rx_exec ARTICLE_PATTERN [31532, 19968, 26465, 32, 20869, 23481, 30002]
     = Some ([20869, 23481, 30002], (\<lambda>n. None)(1 \<mapsto> [19968]))"
  "rx_exec ARTICLE_PATTERN [31532, 20108, 26465, 32, 20869, 23481, 20057]
     = Some ([20869, 23481, 20057], (\<lambda>n. None)(1 \<mapsto> [20108]))"
  by (simp_all add: ARTICLE_PATTERN_def is_numeral_glyph_def rx_defs)

lemma scenario_numbers: "article_number [19968] = [49]" "article_number [20108] = [50]"
  by (simp_all add: article_number_def is_digit_def chineseToArabic_def trim_def is_ws_def
        CHINESE_DIGITS_def String_of_def dec.simps)

lemma scenario_trims:
  "trim [31532, 19968, 26465, 32, 20869, 23481, 30002] = [31532, 19968, 26465, 32, 20869, 23481, 30002]"
  "trim [31532, 20108, 26465, 32, 20869, 23481, 20057] = [31532, 20108, 26465, 32, 20869, 23481, 20057]"
  "trim [20869, 23481, 30002] = [20869, 23481, 30002]"
  "trim [20869, 23481, 20057] = [20869, 23481, 20057]"
  by (simp_all add: trim_def is_ws_def)


lemma provisions_parseNpcHtml:
  "contentEl doc = Some el \<Longrightarrow>
   provisions_field (parseNpcHtml doc lawId lawTitle lawTitleEn lang) =
     process_paragraphs lang (paragraphs_of el)"
  by (simp add: parseNpcHtml_def buildLaw_def)


text \<open>A document in which only the selector \<^verbatim>\<open>body\<close> selects something.\<close>

lemma contentEl_body:
  assumes "sel_length el > 0" and "length (trim (sel_text el)) > 100"
  shows "contentEl
     (\<lambda>selector. if selector = js ''body'' then el
        else \<lparr>sel_length = 0, sel_text = [], sel_found = []\<rparr>) = Some el"
proof -
  have "js ''.article_content'' \<noteq> js ''body''" "js ''.law_content'' \<noteq> js ''body''"
    "js ''.content'' \<noteq> js ''body''" "js ''#UCAP-CONTENT'' \<noteq> js ''body''"
    "js ''.p_content'' \<noteq> js ''body''" "js ''article'' \<noteq> js ''body''"
    "js ''.main_content'' \<noteq> js ''body''"
    by (simp_all add: js_def)
  then show ?thesis
    using assms by (simp add: contentEl_def contentSelectors_def)
qed



text \<open>
  An open article without content is not pushed: of the paragraphs U+7B2C U+4E00 U+6761 and
  U+7B2C U+4E8C U+6761, a space, U+5185 U+5BB9 U+4E59, under a heading that makes the
  body a container, the first opens article 1 and the second drops it.
\<close>

lemma extract_empty_article:
  "provisions_field
     (parseNpcHtml
     (\<lambda>selector.
       if selector = js ''body'' then
         \<lparr>sel_length = 1,
           sel_text =
             js ''Cybersecurity Law, adopted at the 24th Session of the Standing Committee of the Twelfth National Peoples Congress on 7 November 2016'' @
             [31532, 19968, 26465] @
             [31532, 20108, 26465, 32, 20869, 23481, 20057],
           sel_found =
            [[31532, 19968, 26465],
             [31532, 20108, 26465, 32, 20869, 23481, 20057]]\<rparr>
       else \<lparr>sel_length = 0, sel_text = [], sel_found = []\<rparr>)
     [] [] [] [122, 104]) =
     [\<lparr>ParsedProvision.provision_ref = [50], ParsedProvision.section_field = [50],
        ParsedProvision.title = [], ParsedProvision.content = [20869, 23481, 20057],
        ParsedProvision.language = [122, 104]\<rparr>]"
proof -
  let ?el = "\<lparr>sel_length = 1,
            sel_text =
              js ''Cybersecurity Law, adopted at the 24th Session of the Standing Committee of the Twelfth National Peoples Congress on 7 November 2016'' @
              [31532, 19968, 26465] @
              [31532, 20108, 26465, 32, 20869, 23481, 20057],
            sel_found =
             [[31532, 19968, 26465],
              [31532, 20108, 26465, 32, 20869, 23481, 20057]]\<rparr>"
  let ?doc = "(\<lambda>selector.
             if selector = js ''body'' then
               \<lparr>sel_length = 1,
                 sel_text =
                   js ''Cybersecurity Law, adopted at the 24th Session of the Standing Committee of the Twelfth National Peoples Congress on 7 November 2016'' @
                   [31532, 19968, 26465] @
                   [31532, 20108, 26465, 32, 20869, 23481, 20057],
                 sel_found =
                  [[31532, 19968, 26465],
                   [31532, 20108, 26465, 32, 20869, 23481, 20057]]\<rparr>
             else \<lparr>sel_length = 0, sel_text = [], sel_found = []\<rparr>)"
  have t: "trim (sel_text ?el) = sel_text ?el"
    by (rule trim_id) (simp_all add: js_def is_ws_def)
  have g: "length (trim (sel_text ?el)) > 100"
    unfolding t by (simp add: js_def)
  have c: "contentEl ?doc = Some ?el"
    by (rule contentEl_body) (simp, rule g)
  have m: "rx_exec ARTICLE_PATTERN [31532, 19968, 26465] = Some ([], (\<lambda>n. None)(1 \<mapsto> [19968]))"
    by (simp add: ARTICLE_PATTERN_def is_numeral_glyph_def rx_defs)
  have t0: "trim [31532, 19968, 26465] = [31532, 19968, 26465]" "trim [] = []"
    by (simp_all add: trim_def is_ws_def)
  have p: "paragraphs_of ?el =
      [[31532, 19968, 26465],
       [31532, 20108, 26465, 32, 20869, 23481, 20057]]"
    by (simp add: paragraphs_of_def scenario_trims t0)
  have "process_paragraphs [122, 104]
      [[31532, 19968, 26465],
       [31532, 20108, 26465, 32, 20869, 23481, 20057]] =
     [\<lparr>ParsedProvision.provision_ref = [50], ParsedProvision.section_field = [50],
        ParsedProvision.title = [], ParsedProvision.content = [20869, 23481, 20057],
        ParsedProvision.language = [122, 104]\<rparr>]"
    by (simp add: process_paragraphs_def extract_step_def m scenario_matches scenario_numbers
        scenario_trims t0 save_article_def js_str_def)
  then show ?thesis
    by (simp only: provisions_parseNpcHtml [OF c] p)
qed


section \<open>Properties of the query normaliser\<close>

lemma explicit_nonempty: "EXPLICIT_FTS_SYNTAX t \<Longrightarrow> t \<noteq> []"
  by (auto simp: EXPLICIT_FTS_SYNTAX_def)

lemma length_strip_dashes: "length (strip_dashes s) \<le> length s"
  by (induction s rule: strip_dashes.induct) auto

lemma set_strip_dashes: "set (strip_dashes s) \<subseteq> set s"
  by (induction s rule: strip_dashes.induct) auto

lemma strip_dashes_keep: "b \<noteq> 45 \<Longrightarrow> strip_dashes (b # cs) = b # strip_dashes cs"
  by (cases cs) auto

lemma no_comment_strip_dashes: "\<not> has_comment (strip_dashes s)"
proof (induction s rule: strip_dashes.induct)
  case (1 a b cs)
  show ?case
  proof (cases "a = 45 \<and> b = 45")
    case True
    then show ?thesis using 1 by simp
  next
    case False
    show ?thesis
    proof (cases "b = 45")
      case True
      then have "a \<noteq> 45" using False by simp
      then show ?thesis using 1 False by (cases "strip_dashes (b # cs)") auto
    next
      case b: False
      then show ?thesis using 1 False by (simp add: strip_dashes_keep)
    qed
  qed
qed simp_all

lemma has_comment_snoc: "x \<noteq> 45 \<Longrightarrow> has_comment (s @ [x]) = has_comment s"
  by (induction s rule: has_comment.induct) auto

lemma even_balance_quotes: "even (length (filter (\<lambda>c. c = 34) (balance_quotes s)))"
  by (simp add: balance_quotes_def)

text \<open>
  Claim C8, as amended. When the query, trimmed and cut to 1000 code units, has explicit
  index syntax (a double quote, one of the words AND, OR, NOT, or a final star), the result
  is a single primary variant: it has no semicolon and no \<^verbatim>\<open>--\<close>, the number of its
  double quotes is even, and it is the trimmed and cut query in which the curly double
  quotes U+201C and U+201D are made straight, the semicolons and the \<^verbatim>\<open>--\<close> are
  removed, and a closing quote is appended when the quotes are odd in number.
\<close>

theorem buildFtsQueryVariants_explicit:
  "EXPLICIT_FTS_SYNTAX (take MAX_QUERY_LENGTH (trim query)) \<Longrightarrow>
   fallback (buildFtsQueryVariants LN query) = None \<and>
   59 \<notin> set (primary (buildFtsQueryVariants LN query)) \<and>
   \<not> has_comment (primary (buildFtsQueryVariants LN query)) \<and>
   even (length (filter (\<lambda>c. c = 34) (primary (buildFtsQueryVariants LN query)))) \<and>
   primary (buildFtsQueryVariants LN query) =
     balance_quotes (strip_dashes (filter (\<lambda>c. c \<noteq> 59)
       (straighten_quotes (take MAX_QUERY_LENGTH (trim query)))))"
proof -
  assume ex: "EXPLICIT_FTS_SYNTAX (take MAX_QUERY_LENGTH (trim query))"
  let ?t = "take MAX_QUERY_LENGTH (trim query)"
  let ?n = "strip_dashes (filter (\<lambda>c. c \<noteq> 59) (straighten_quotes ?t))"
  have ne: "?t \<noteq> []" using ex by (rule explicit_nonempty)
  have "length ?n \<le> length (filter (\<lambda>c. c \<noteq> 59) (straighten_quotes ?t))"
    by (rule length_strip_dashes)
  also have "\<dots> \<le> length (straighten_quotes ?t)" by (rule length_filter_le)
  also have "\<dots> \<le> MAX_QUERY_LENGTH" by (simp add: straighten_quotes_def)
  finally have tk: "take MAX_QUERY_LENGTH ?n = ?n" by simp
  have r: "buildFtsQueryVariants LN query = \<lparr>primary = balance_quotes ?n, fallback = None\<rparr>"
    using ex ne tk by (simp add: buildFtsQueryVariants_def Let_def)
  have semi: "59 \<notin> set ?n" using set_strip_dashes [of "filter (\<lambda>c. c \<noteq> 59) (straighten_quotes ?t)"] by auto
  have nc: "\<not> has_comment (balance_quotes ?n)"
    using no_comment_strip_dashes [of "filter (\<lambda>c. c \<noteq> 59) (straighten_quotes ?t)"]
    by (simp add: balance_quotes_def has_comment_snoc)
  show ?thesis
    unfolding r using semi nc by (simp add: even_balance_quotes) (simp add: balance_quotes_def)
qed

theorem buildFtsQueryVariants_explicit_witness:
  "primary (buildFtsQueryVariants (\<lambda>c. False) [32, 34, 97, 59, 45, 45, 98]) = [34, 97, 98, 34]"
  using buildFtsQueryVariants_explicit [of "[32, 34, 97, 59, 45, 45, 98]" "\<lambda>c. False"]
  by (simp add: MAX_QUERY_LENGTH_def trim_def is_ws_def EXPLICIT_FTS_SYNTAX_def
        straighten_quotes_def balance_quotes_def)

text \<open>
  The claim as stated fails on a straight quote followed by U+201C: the curly quote is
  neither a semicolon nor a dash, and it is not preserved.
\<close>

theorem buildFtsQueryVariants_verbatim_counterexample:
  "primary (buildFtsQueryVariants (\<lambda>c. False) [34, 8220]) = [34, 34] \<and>
   balance_quotes (strip_dashes (filter (\<lambda>c. c \<noteq> 59) [34, 8220])) = [34, 8220, 34]"
  by (simp add: buildFtsQueryVariants_def MAX_QUERY_LENGTH_def trim_def is_ws_def
        EXPLICIT_FTS_SYNTAX_def straighten_quotes_def balance_quotes_def)


section \<open>Properties of the citation parser\<close>

text \<open>
  Claim C9. A citation that matches none of the seven patterns is answered by a structured
  result, not by an exception: its \<open>valid\<close> flag is false and it carries the reason, a
  sentence that quotes the trimmed input.
\<close>

theorem parseCitation_no_match:
  "rx_exec ID_CITATION (trim citation) = None \<Longrightarrow>
   rx_exec CHINESE_CITATION (trim citation) = None \<Longrightarrow>
   rx_exec CHINESE_LAW_FIRST (trim citation) = None \<Longrightarrow>
   rx_exec ENGLISH_CITATION (trim citation) = None \<Longrightarrow>
   rx_exec SHORT_CITATION (trim citation) = None \<Longrightarrow>
   rx_exec BARE_CHINESE_ARTICLE (trim citation) = None \<Longrightarrow>
   rx_exec BARE_ENGLISH_ARTICLE (trim citation) = None \<Longrightarrow>
   parseCitation citation =
     Inr \<lparr>valid = False, type = unknown, ParsedCitation.title = None, title_en = None,
          article = None, paragraph_num = None,
          error = Some (js ''Could not parse Chinese law citation: \"'' @ trim citation @ js ''\"'')\<rparr>"
  by (simp add: parseCitation_def parse_failure_def Let_def)

theorem parseCitation_no_match_witness:
  "parseCitation (js ''no citation here'') =
     Inr \<lparr>valid = False, type = unknown, ParsedCitation.title = None, title_en = None,
          article = None, paragraph_num = None,
          error = Some (js ''Could not parse Chinese law citation: \"no citation here\"'')\<rparr>"
proof -
  have t: "trim (js ''no citation here'') = js ''no citation here''"
    by (simp add: trim_def js_def is_ws_def)
  have "rx_exec ID_CITATION (js ''no citation here'') = None"
    by (simp add: ID_CITATION_def rx_defs)
  moreover have "rx_exec CHINESE_CITATION (js ''no citation here'') = None"
    by (simp add: CHINESE_CITATION_def rx_defs)
  moreover have "rx_exec CHINESE_LAW_FIRST (js ''no citation here'') = None"
    by (simp add: CHINESE_LAW_FIRST_def rx_defs)
  moreover have "rx_exec ENGLISH_CITATION (js ''no citation here'') = None"
    by (simp add: ENGLISH_CITATION_def rx_defs)
  moreover have "rx_exec SHORT_CITATION (js ''no citation here'') = None"
    by (simp add: SHORT_CITATION_def rx_defs)
  moreover have "rx_exec BARE_CHINESE_ARTICLE (js ''no citation here'') = None"
    by (simp add: BARE_CHINESE_ARTICLE_def rx_defs)
  moreover have "rx_exec BARE_ENGLISH_ARTICLE (js ''no citation here'') = None"
    by (simp add: BARE_ENGLISH_ARTICLE_def rx_defs)
  ultimately show ?thesis
    using parseCitation_no_match [of "js ''no citation here''"] t by (simp add: js_def)
qed

section \<open>The citation round trip\<close>

lemma rx_invD: "rx_inv P k \<Longrightarrow> k s c = Some r \<Longrightarrow> P s c r"
  unfolding rx_inv_def by blast

lemma rx_invI: "(\<And>s c r. k s c = Some r \<Longrightarrow> P s c r) \<Longrightarrow> rx_inv P k"
  unfolding rx_inv_def by blast

lemma rx_trD: "rx_tr P a \<Longrightarrow> rx_inv P k \<Longrightarrow> rx_inv P (a k)"
  unfolding rx_tr_def by blast

lemma rx_trI: "(\<And>k. rx_inv P k \<Longrightarrow> rx_inv P (a k)) \<Longrightarrow> rx_tr P a"
  unfolding rx_tr_def by blast

lemma rx_upD: "rx_up P \<Longrightarrow> P s c r \<Longrightarrow> P (x # s) c r"
  unfolding rx_up_def by blast

lemma tr_cls: "rx_up P \<Longrightarrow> rx_tr P (rx_cls p)"
proof (rule rx_trI, rule rx_invI)
  fix k s c r
  assume up: "rx_up P" and k: "rx_inv P k" and m: "rx_cls p k s c = Some r"
  show "P s c r"
  proof (cases s)
    case Nil
    then show ?thesis using m by simp
  next
    case (Cons x xs)
    then have "k xs c = Some r" using m by (simp split: if_splits)
    then have "P xs c r" using k by (rule rx_invD [rotated])
    then show ?thesis using up Cons by (simp add: rx_upD)
  qed
qed

lemma inv_star: "rx_up P \<Longrightarrow> rx_inv P k \<Longrightarrow> rx_star p k s c = Some r \<Longrightarrow> P s c r"
proof (induction s)
  case Nil
  then show ?case using rx_invD [of P k "[]" c r] by simp
next
  case (Cons x xs)
  show ?case
  proof (cases "rx_star p k xs c")
    case (Some r')
    show ?thesis
    proof (cases "p x")
      case True
      then have "rx_star p k xs c = Some r" using Cons.prems(3) Some by simp
      then have "P xs c r" using Cons by blast
      then show ?thesis using Cons.prems(1) by (rule rx_upD [rotated])
    next
      case False
      then have "k (x # xs) c = Some r" using Cons.prems(3) by simp
      then show ?thesis using Cons.prems(2) by (rule rx_invD [rotated])
    qed
  next
    case None
    then have "k (x # xs) c = Some r" using Cons.prems(3) by (simp split: if_splits)
    then show ?thesis using Cons.prems(2) by (rule rx_invD [rotated])
  qed
qed

lemma tr_star: "rx_up P \<Longrightarrow> rx_tr P (rx_star p)"
  by (rule rx_trI, rule rx_invI) (rule inv_star)

lemma inv_lazy_star: "rx_up P \<Longrightarrow> rx_inv P k \<Longrightarrow> rx_lazy_star p k s c = Some r \<Longrightarrow> P s c r"
proof (induction s)
  case Nil
  then show ?case using rx_invD [of P k "[]" c r] by simp
next
  case (Cons x xs)
  show ?case
  proof (cases "k (x # xs) c")
    case (Some r')
    then have "k (x # xs) c = Some r" using Cons.prems(3) by simp
    then show ?thesis using Cons.prems(2) by (rule rx_invD [rotated])
  next
    case None
    then have "rx_lazy_star p k xs c = Some r" using Cons.prems(3) by (simp split: if_splits)
    then have "P xs c r" using Cons by blast
    then show ?thesis using Cons.prems(1) by (rule rx_upD [rotated])
  qed
qed

lemma tr_lazy_star: "rx_up P \<Longrightarrow> rx_tr P (rx_lazy_star p)"
  by (rule rx_trI, rule rx_invI) (rule inv_lazy_star)

lemma tr_comp: "rx_tr P a \<Longrightarrow> rx_tr P b \<Longrightarrow> rx_tr P (\<lambda>k. a (b k))"
  unfolding rx_tr_def by blast

lemma tr_plus: "rx_up P \<Longrightarrow> rx_tr P (rx_plus p)"
  using tr_comp [OF tr_cls tr_star, of P p p] by (simp add: rx_plus_def [abs_def])

lemma tr_lazy_plus: "rx_up P \<Longrightarrow> rx_tr P (rx_lazy_plus p)"
  using tr_comp [OF tr_cls tr_lazy_star, of P p p] by (simp add: rx_lazy_plus_def [abs_def])

lemma tr_eol: "rx_tr P rx_eol"
proof (rule rx_trI, rule rx_invI)
  fix k s c r
  assume k: "rx_inv P k" and m: "rx_eol k s c = Some r"
  show "P s c r"
  proof (cases s)
    case Nil
    then have "k [] c = Some r" using m by simp
    then show ?thesis using k Nil by (simp add: rx_invD)
  next
    case (Cons x xs)
    then show ?thesis using m by simp
  qed
qed

lemma tr_opt: "rx_tr P a \<Longrightarrow> rx_tr P (rx_opt a)"
proof (rule rx_trI, rule rx_invI)
  fix k s c r
  assume a: "rx_tr P a" and k: "rx_inv P k" and m: "rx_opt a k s c = Some r"
  have "a k s c = Some r \<or> k s c = Some r"
    using m by (auto simp: rx_opt_def split: option.splits)
  then show "P s c r"
    using rx_invD [OF rx_trD [OF a k]] rx_invD [OF k] by blast
qed

lemma tr_alt: "rx_tr P a \<Longrightarrow> rx_tr P b \<Longrightarrow> rx_tr P (rx_alt a b)"
proof (rule rx_trI, rule rx_invI)
  fix k s c r
  assume a: "rx_tr P a" and b: "rx_tr P b" and k: "rx_inv P k" and m: "rx_alt a b k s c = Some r"
  have "a k s c = Some r \<or> b k s c = Some r"
    using m by (auto simp: rx_alt_def split: option.splits)
  then show "P s c r"
    using rx_invD [OF rx_trD [OF a k]] rx_invD [OF rx_trD [OF b k]] by blast
qed

lemma tr_all_Nil: "rx_tr P (rx_all [])"
  by (rule rx_trI) simp

lemma tr_all_Cons: "rx_tr P a \<Longrightarrow> rx_tr P (rx_all as) \<Longrightarrow> rx_tr P (rx_all (a # as))"
  by (rule rx_trI) (simp add: rx_trD)

lemma tr_group: "rx_tr P a \<Longrightarrow> rx_stable P n \<Longrightarrow> rx_tr P (rx_group n a)"
proof (rule rx_trI, rule rx_invI)
  fix k s c r
  assume a: "rx_tr P a" and st: "rx_stable P n" and k: "rx_inv P k"
    and m: "rx_group n a k s c = Some r"
  let ?K = "\<lambda>s' c'. k s' (c'(n \<mapsto> take (length s - length s') s))"
  have "rx_inv P ?K"
  proof (rule rx_invI)
    fix s' c' r'
    assume "k s' (c'(n \<mapsto> take (length s - length s') s)) = Some r'"
    then have "P s' (c'(n \<mapsto> take (length s - length s') s)) r'"
      using k by (rule rx_invD [rotated])
    then show "P s' c' r'" using st unfolding rx_stable_def by blast
  qed
  then have "rx_inv P (a ?K)" using a by (rule rx_trD [rotated])
  moreover have "a ?K s c = Some r" using m by (simp add: rx_group_def)
  ultimately show "P s c r" by (rule rx_invD)
qed

lemma tr_lit: "rx_up P \<Longrightarrow> rx_tr P (rx_lit w)"
proof (induction w)
  case Nil
  show ?case by (rule rx_trI) simp
next
  case (Cons a w)
  show ?case
  proof (rule rx_trI)
    fix k assume "rx_inv P k"
    then have "rx_inv P (rx_lit w k)" using Cons by (simp add: rx_trD)
    then have "rx_inv P (rx_cls (\<lambda>x. x = a) (rx_lit w k))"
      using tr_cls [OF Cons.prems] by (simp add: rx_trD)
    then show "rx_inv P (rx_lit (a # w) k)" by simp
  qed
qed

lemma tr_lit_i: "rx_up P \<Longrightarrow> rx_tr P (rx_lit_i w)"
proof (induction w)
  case Nil
  show ?case by (rule rx_trI) simp
next
  case (Cons a w)
  show ?case
  proof (rule rx_trI)
    fix k assume "rx_inv P k"
    then have "rx_inv P (rx_lit_i w k)" using Cons by (simp add: rx_trD)
    then have "rx_inv P (rx_cls (ci a) (rx_lit_i w k))"
      using tr_cls [OF Cons.prems] by (simp add: rx_trD)
    then show "rx_inv P (rx_lit_i (a # w) k)" by simp
  qed
qed

lemmas tr_rules = tr_cls tr_star tr_lazy_star tr_plus tr_lazy_plus tr_eol tr_opt tr_alt
  tr_all_Nil tr_all_Cons tr_group tr_lit tr_lit_i

text \<open>Exact evaluation of the quantifiers, when the continuation succeeds.\<close>

lemma star_exact:
  "list_all p u \<Longrightarrow> v = [] \<or> \<not> p (hd v) \<Longrightarrow> k v c \<noteq> None \<Longrightarrow> rx_star p k (u @ v) c = k v c"
proof (induction u)
  case Nil
  then show ?case by (cases v) auto
next
  case (Cons x u)
  then show ?case by auto
qed

lemma lazy_star_exact:
  "list_all p u \<Longrightarrow> (\<forall>x \<in> set u. \<forall>xs. k (x # xs) c = None) \<Longrightarrow> k v c \<noteq> None \<Longrightarrow>
   rx_lazy_star p k (u @ v) c = k v c"
proof (induction u)
  case Nil
  then show ?case by (cases v) auto
next
  case (Cons x u)
  then show ?case by auto
qed

lemma opt_take: "a k s c \<noteq> None \<Longrightarrow> rx_opt a k s c = a k s c"
  by (auto simp: rx_opt_def)

lemma opt_skip: "a k s c = None \<Longrightarrow> rx_opt a k s c = k s c"
  by (simp add: rx_opt_def)

text \<open>Rules for \<open>succeeds\<close>.\<close>

lemma succ_cls: "p x \<Longrightarrow> succeeds k xs \<Longrightarrow> succeeds (rx_cls p k) (x # xs)"
  by (simp add: succeeds_def)

lemma star_succ: "list_all p u \<Longrightarrow> k v c \<noteq> None \<Longrightarrow> rx_star p k (u @ v) c \<noteq> None"
proof (induction u)
  case Nil
  then show ?case by (cases v) (auto split: option.splits)
next
  case (Cons x u)
  then show ?case by (auto split: option.splits)
qed

lemma succ_star: "list_all p u \<Longrightarrow> succeeds k v \<Longrightarrow> succeeds (rx_star p k) (u @ v)"
  by (simp add: succeeds_def star_succ)

lemma succ_star0: "succeeds k v \<Longrightarrow> succeeds (rx_star p k) v"
  using succ_star [of p "[]" k v] by simp

lemma lazy_star_succ: "list_all p u \<Longrightarrow> k v c \<noteq> None \<Longrightarrow> rx_lazy_star p k (u @ v) c \<noteq> None"
proof (induction u)
  case Nil
  then show ?case by (cases v) (auto split: option.splits)
next
  case (Cons x u)
  then show ?case by (auto split: option.splits)
qed

lemma succ_lazy_plus:
  "u \<noteq> [] \<Longrightarrow> list_all p u \<Longrightarrow> succeeds k v \<Longrightarrow> succeeds (rx_lazy_plus p k) (u @ v)"
  by (cases u) (auto simp: succeeds_def rx_lazy_plus_def lazy_star_succ)

lemma succ_opt: "succeeds k s \<Longrightarrow> succeeds (rx_opt a k) s"
  by (auto simp: succeeds_def rx_opt_def split: option.splits)

lemma succ_eol: "succeeds k [] \<Longrightarrow> succeeds (rx_eol k) []"
  by (simp add: succeeds_def)

lemma succ_group:
  "(\<And>K. succeeds K v \<Longrightarrow> succeeds (a K) s) \<Longrightarrow> succeeds k v \<Longrightarrow> succeeds (rx_group n a k) s"
proof -
  assume a: "\<And>K. succeeds K v \<Longrightarrow> succeeds (a K) s" and k: "succeeds k v"
  have "succeeds (\<lambda>s' c'. k s' (c'(n \<mapsto> take (length s - length s') s))) v"
    using k by (simp add: succeeds_def)
  then have "succeeds (a (\<lambda>s' c'. k s' (c'(n \<mapsto> take (length s - length s') s)))) s"
    by (rule a)
  then show ?thesis by (simp add: succeeds_def rx_group_def)
qed

text \<open>Decimal numerals.\<close>

lemma dec_digits: "dec n \<noteq> [] \<and> list_all is_digit (dec n)"
proof (induction n rule: dec.induct)
  case (1 n)
  show ?case
  proof (cases "n < 10")
    case True
    then show ?thesis by (simp add: dec.simps [of n] is_digit_def)
  next
    case False
    then show ?thesis using 1 by (simp add: dec.simps [of n] is_digit_def)
  qed
qed

lemma digits_value_snoc: "digits_value (ds @ [d]) = 10 * digits_value ds + (d - 48)"
  by (simp add: digits_value_def)

lemma digits_value_dec: "digits_value (dec n) = n"
proof (induction n rule: dec.induct)
  case (1 n)
  show ?case
  proof (cases "n < 10")
    case True
    then show ?thesis by (simp add: dec.simps [of n] digits_value_def)
  next
    case False
    then show ?thesis using 1 by (simp add: dec.simps [of n] digits_value_snoc)
  qed
qed

lemma digit_not_ws: "is_digit c \<Longrightarrow> \<not> is_ws c"
  by (auto simp: is_digit_def is_ws_def)

lemma takeWhile_all: "\<forall>x \<in> set xs. P x \<Longrightarrow> takeWhile P xs = xs"
  by simp

lemma parseInt_dec: "parseInt (dec n) = Some (int n)"
proof -
  obtain d ds where d: "dec n = d # ds" using dec_digits [of n] by (cases "dec n") auto
  have dd: "is_digit d" "list_all is_digit ds" using dec_digits [of n] d by auto
  have tw: "takeWhile is_digit ds = ds"
    using dd by (simp add: list_all_iff)
  have "d \<noteq> 45" "d \<noteq> 43" using dd by (auto simp: is_digit_def)
  then show ?thesis
    using d dd(1) dd(2) digits_value_dec [of n] digit_not_ws [of d]
    by (simp add: parseInt_def Let_def takeWhile_all list_all_iff)
qed

lemma parseInt_String_of: "0 \<le> n \<Longrightarrow> parseInt (String_of n) = Some n"
  by (simp add: String_of_def parseInt_dec)

lemma String_of_digits: "0 \<le> n \<Longrightarrow> String_of n \<noteq> [] \<and> list_all is_digit (String_of n)"
  by (simp add: String_of_def dec_digits)

text \<open>The glyphs of a numeral.\<close>

lemma digit_glyphs: "0 \<le> d \<Longrightarrow> d \<le> 9 \<Longrightarrow> list_all numeral_glyph (ARABIC_TO_CHINESE ! nat d)"
proof -
  assume "0 \<le> d" "d \<le> 9"
  then have "d = 0 \<or> d \<in> {1, 2, 3, 4, 5, 6, 7, 8, 9}"
    using digit_cases [of d] by (cases "d = 0") simp_all
  then show ?thesis
    by (elim disjE insertE; simp add: ARABIC_TO_CHINESE_def numeral_glyph_def)
qed

lemma arabicToChinese_glyphs:
  assumes "1 \<le> n" "n \<le> 9999"
  shows "arabicToChinese n \<noteq> []" and "list_all numeral_glyph (arabicToChinese n)"
proof -
  define a where "a = n div 1000"
  define b where "b = (n mod 1000) div 100"
  define c where "c = (n mod 100) div 10"
  define d where "d = n mod 10"
  have rng: "0 \<le> a" "a \<le> 9" "0 \<le> b" "b \<le> 9" "0 \<le> c" "c \<le> 9" "0 \<le> d" "d \<le> 9"
    using assms unfolding a_def b_def c_def d_def by auto
  have n: "n = 1000 * a + 100 * b + 10 * c + d"
    unfolding a_def b_def c_def d_def by (rule decimal_split)
  have nz: "a > 0 \<or> b > 0 \<or> c > 0 \<or> d > 0" using assms n by auto
  have g: "list_all numeral_glyph (ARABIC_TO_CHINESE ! nat a)"
    "list_all numeral_glyph (ARABIC_TO_CHINESE ! nat b)"
    "list_all numeral_glyph (ARABIC_TO_CHINESE ! nat c)"
    "list_all numeral_glyph (ARABIC_TO_CHINESE ! nat d)"
    using rng by (simp_all add: digit_glyphs)
  have k: "numeral_glyph 21315" "numeral_glyph 30334" "numeral_glyph 21313" "numeral_glyph 38646"
    by (simp_all add: numeral_glyph_def)
  have shape: "arabicToChinese n =
     concat ((if a > 0 then [ARABIC_TO_CHINESE ! nat a @ [21315]] else []) @
             (if b > 0 then [ARABIC_TO_CHINESE ! nat b @ [30334]]
                  else if a > 0 \<and> (c > 0 \<or> d > 0) then [[38646]] else []) @
             (if c > 0 then
                    (if c = 1 \<and> a = 0 \<and> b = 0 then [[21313]]
                     else [ARABIC_TO_CHINESE ! nat c @ [21313]])
                  else if b > 0 \<and> d > 0 then [[38646]] else []) @
             (if d > 0 then [ARABIC_TO_CHINESE ! nat d] else []))"
    using assms unfolding arabicToChinese_def a_def b_def c_def d_def Let_def by simp
  show "list_all numeral_glyph (arabicToChinese n)"
    unfolding shape using g k by simp
  have "ARABIC_TO_CHINESE ! nat d \<noteq> []" if "d > 0"
  proof -
    have "ARABIC_TO_CHINESE ! nat d = [hd (ARABIC_TO_CHINESE ! nat d)]"
      using that rng by (intro digit_glyph(1)) simp_all
    then show ?thesis by (cases "ARABIC_TO_CHINESE ! nat d") simp_all
  qed
  then show "arabicToChinese n \<noteq> []"
    unfolding shape using nz by auto
qed

lemma numeral_glyph_props:
  assumes "numeral_glyph g"
  shows "is_dot g" "g \<noteq> 26465" "g \<noteq> 27454" "g \<noteq> 31532" "\<not> is_ws g" "\<not> is_digit g" "g \<noteq> 45" "g \<noteq> 43"
  using assms by (auto simp: numeral_glyph_def is_dot_def is_ws_def is_digit_def)

lemma parseInt_numeral:
  assumes "s \<noteq> []" "list_all numeral_glyph s"
  shows "parseInt s = None"
proof -
  obtain g gs where s: "s = g # gs" using assms by (cases s) auto
  then have "numeral_glyph g" using assms by simp
  then show ?thesis using s numeral_glyph_props [of g] by (simp add: parseInt_def Let_def)
qed

lemma trim_numeral:
  assumes "s \<noteq> []" "list_all numeral_glyph s"
  shows "trim s = s"
proof (rule trim_id)
  show "s \<noteq> []" by fact
  have "numeral_glyph (hd s)" "numeral_glyph (last s)"
    using assms by (auto simp: list_all_iff)
  then show "\<not> is_ws (hd s)" "\<not> is_ws (last s)" by (simp_all add: numeral_glyph_props)
qed

text \<open>A lazy group that a delimiter closes.\<close>

lemma group_lazy_delim:
  assumes "u \<noteq> []" "list_all is_dot u" "d \<notin> set u" "K v (c(n \<mapsto> u)) \<noteq> None"
  shows "rx_group n (rx_lazy_plus is_dot) (rx_lit [d] K) (u @ d # v) c = K v (c(n \<mapsto> u))"
proof -
  obtain g gs where u: "u = g # gs" using assms(1) by (cases u) auto
  let ?s = "u @ d # v"
  let ?k = "\<lambda>s' c'. rx_lit [d] K s' (c'(n \<mapsto> take (length ?s - length s') ?s))"
  have fail: "\<forall>x \<in> set gs. \<forall>xs. ?k (x # xs) c = None"
    using assms(3) u by auto
  have at: "?k (d # v) c = K v (c(n \<mapsto> u))" by simp
  have "rx_lazy_star is_dot ?k (gs @ d # v) c = ?k (d # v) c"
    using assms(2) u fail at assms(4) by (intro lazy_star_exact) auto
  then show ?thesis
    using assms(2) u at by (simp add: rx_group_def rx_lazy_plus_def)
qed

lemma up_keeps12: "rx_up keeps12"
  by (simp add: rx_up_def)

lemma stable_keeps12: "2 < n \<Longrightarrow> rx_stable keeps12 n"
  by (simp add: rx_stable_def)

lemma inv_kf_keeps12: "rx_inv keeps12 kf"
  by (rule rx_invI) auto

lemma up_sets: "rx_up (\<lambda>s c r. snd r n \<noteq> None)"
  by (simp add: rx_up_def)

lemma up_holds: "rx_up (\<lambda>s c r. c n \<noteq> None \<longrightarrow> snd r n \<noteq> None)"
  by (simp add: rx_up_def)

lemma stable_sets: "rx_stable (\<lambda>s c r. snd r n \<noteq> None) m"
  by (simp add: rx_stable_def)

lemma stable_holds: "rx_stable (\<lambda>s c r. c n \<noteq> None \<longrightarrow> snd r n \<noteq> None) m"
  by (auto simp: rx_stable_def)

lemma inv_kf_holds: "rx_inv (\<lambda>s c r. c n \<noteq> None \<longrightarrow> snd r n \<noteq> None) kf"
  by (rule rx_invI) auto

lemma group_sets:
  assumes a: "rx_tr (\<lambda>s c r. snd r n \<noteq> None) a"
    and k: "rx_inv (\<lambda>s c r. c n \<noteq> None \<longrightarrow> snd r n \<noteq> None) k"
  shows "rx_inv (\<lambda>s c r. snd r n \<noteq> None) (rx_group n a k)"
proof (rule rx_invI)
  fix s c r
  assume m: "rx_group n a k s c = Some r"
  let ?K = "\<lambda>s' c'. k s' (c'(n \<mapsto> take (length s - length s') s))"
  have "rx_inv (\<lambda>s c r. snd r n \<noteq> None) ?K"
  proof (rule rx_invI)
    fix s' c' r'
    assume "k s' (c'(n \<mapsto> take (length s - length s') s)) = Some r'"
    then show "snd r' n \<noteq> None" using rx_invD [OF k] by fastforce
  qed
  then have "rx_inv (\<lambda>s c r. snd r n \<noteq> None) (a ?K)" using a by (rule rx_trD [rotated])
  moreover have "a ?K s c = Some r" using m by (simp add: rx_group_def)
  ultimately show "snd r n \<noteq> None" by (rule rx_invD)
qed

lemma law_title_split:
  assumes "law_title T"
  shows "\<exists>body suf. T = body @ suf \<and> body \<noteq> [] \<and> list_all is_dot body \<and>
           (suf = [27861] \<or> suf = [20856] \<or> suf = [26465, 20363])"
proof -
  have dot: "list_all is_dot T" using assms by (simp add: law_title_def)
  consider (one) "2 \<le> length T" "last T = 27861 \<or> last T = 20856"
    | (two) "3 \<le> length T" "drop (length T - 2) T = [26465, 20363]"
    using assms by (auto simp: law_title_def)
  then show ?thesis
  proof cases
    case one
    then have ne: "T \<noteq> []" by auto
    have T: "T = butlast T @ [last T]" using ne by simp
    have "butlast T \<noteq> []" using one(1) by (cases T) (auto split: if_splits)
    moreover have "list_all is_dot (butlast T)"
      using dot by (auto simp: list_all_iff dest: in_set_butlastD)
    ultimately show ?thesis using T one(2) by metis
  next
    case two
    have T: "T = take (length T - 2) T @ [26465, 20363]"
      using two(2) append_take_drop_id [of "length T - 2" T] by simp
    have "take (length T - 2) T \<noteq> []" using two(1) by auto
    moreover have "list_all is_dot (take (length T - 2) T)"
      using dot by (auto simp: list_all_iff dest: in_set_takeD)
    ultimately show ?thesis using T by metis
  qed
qed

lemma law_title_last: "law_title T \<Longrightarrow> T \<noteq> [] \<and> \<not> is_ws (last T)"
proof -
  assume "law_title T"
  then obtain body suf where "T = body @ suf" "suf = [27861] \<or> suf = [20856] \<or> suf = [26465, 20363]"
    using law_title_split by blast
  then show ?thesis by (auto simp: is_ws_def)
qed

lemma law_suffix_succ:
  "suf = [27861] \<or> suf = [20856] \<or> suf = [26465, 20363] \<Longrightarrow> succeeds (LAW_SUFFIX (rx_eol kf)) suf"
  by (auto simp: succeeds_def LAW_SUFFIX_def rx_alt_def)

lemma chinese_tail_succ:
  assumes "law_title T"
  shows "succeeds (CHINESE_TAIL kf) (32 # T)"
proof -
  obtain body suf where T: "T = body @ suf" "body \<noteq> []" "list_all is_dot body"
    "suf = [27861] \<or> suf = [20856] \<or> suf = [26465, 20363]"
    using law_title_split [OF assms] by blast
  have s0: "succeeds (LAW_SUFFIX (rx_eol kf)) suf" using T(4) by (rule law_suffix_succ)
  have s1: "succeeds (rx_group 3 (rx_lazy_plus is_dot) (LAW_SUFFIX (rx_eol kf))) T"
    unfolding T(1) using T(2,3) s0 by (intro succ_group [where v = suf] succ_lazy_plus)
  have s2: "succeeds (rx_star is_ws (rx_opt (rx_lit PRC_PREFIX)
              (rx_group 3 (rx_lazy_plus is_dot) (LAW_SUFFIX (rx_eol kf))))) T"
    using s1 by (intro succ_star0 succ_opt)
  have "succeeds (rx_star is_ws (rx_opt ANY_COMMA (rx_star is_ws (rx_opt (rx_lit PRC_PREFIX)
              (rx_group 3 (rx_lazy_plus is_dot) (LAW_SUFFIX (rx_eol kf))))))) ([32] @ T)"
    using s2 by (intro succ_star succ_opt) (simp_all add: is_ws_def)
  then show ?thesis by (simp add: CHINESE_TAIL_def)
qed

lemma chinese_tail_keeps: "rx_inv keeps12 (CHINESE_TAIL kf)"
proof -
  have "rx_tr keeps12 CHINESE_TAIL"
    unfolding CHINESE_TAIL_def LAW_SUFFIX_def ANY_COMMA_def
    by (intro tr_rules up_keeps12 stable_keeps12) simp
  then show ?thesis using inv_kf_keeps12 by (rule rx_trD)
qed

lemma chinese_tail_sets: "rx_inv (\<lambda>s c r. snd r 3 \<noteq> None) (CHINESE_TAIL kf)"
proof -
  have "rx_tr (\<lambda>s c r. c 3 \<noteq> None \<longrightarrow> snd r 3 \<noteq> None) (rx_all [LAW_SUFFIX, rx_eol])"
    unfolding LAW_SUFFIX_def by (intro tr_rules up_holds)
  then have k: "rx_inv (\<lambda>s c r. c 3 \<noteq> None \<longrightarrow> snd r 3 \<noteq> None) (rx_all [LAW_SUFFIX, rx_eol] kf)"
    using inv_kf_holds by (rule rx_trD)
  have g: "rx_inv (\<lambda>s c r. snd r 3 \<noteq> None)
             (rx_group 3 (rx_lazy_plus is_dot) (rx_all [LAW_SUFFIX, rx_eol] kf))"
    using k by (intro group_sets tr_rules up_sets)
  have "rx_tr (\<lambda>s c r. snd r 3 \<noteq> None)
          (rx_all [rx_star is_ws, rx_opt ANY_COMMA, rx_star is_ws, rx_opt (rx_lit PRC_PREFIX)])"
    unfolding ANY_COMMA_def by (intro tr_rules up_sets)
  then have "rx_inv (\<lambda>s c r. snd r 3 \<noteq> None)
          (rx_all [rx_star is_ws, rx_opt ANY_COMMA, rx_star is_ws, rx_opt (rx_lit PRC_PREFIX)]
             (rx_group 3 (rx_lazy_plus is_dot) (rx_all [LAW_SUFFIX, rx_eol] kf)))"
    using g by (rule rx_trD)
  then show ?thesis by (simp add: CHINESE_TAIL_def)
qed

lemma chinese_tail_result:
  assumes "law_title T"
  obtains r where "CHINESE_TAIL kf (32 # T) c = Some r" "snd r 1 = c 1" "snd r 2 = c 2"
    "snd r 3 \<noteq> None"
proof -
  have "CHINESE_TAIL kf (32 # T) c \<noteq> None"
    using chinese_tail_succ [OF assms] by (simp add: succeeds_def)
  then obtain r where r: "CHINESE_TAIL kf (32 # T) c = Some r" by (cases "CHINESE_TAIL kf (32 # T) c") auto
  have "snd r 1 = c 1 \<and> snd r 2 = c 2" using chinese_tail_keeps r by (rule rx_invD)
  moreover have "snd r 3 \<noteq> None" using chinese_tail_sets r by (rule rx_invD)
  ultimately show ?thesis using r that by simp
qed

lemma chinese_match:
  assumes N: "N \<noteq> []" "list_all numeral_glyph N"
    and P: "(P = [] \<and> pc = None) \<or>
            (\<exists>M. M \<noteq> [] \<and> list_all numeral_glyph M \<and> P = 31532 # M @ [27454] \<and> pc = Some M)"
    and T: "law_title T"
  obtains r where "rx_exec CHINESE_CITATION (31532 # N @ 26465 # P @ 32 # T) = Some r"
    "snd r 1 = Some N" "snd r 2 = pc" "snd r 3 \<noteq> None"
proof -
  let ?og = "rx_all [rx_lit [31532], rx_group 2 (rx_lazy_plus is_dot), rx_lit [27454]]"
  let ?c1 = "((\<lambda>n. None)(1 \<mapsto> N)) :: caps"
  have Ndot: "list_all is_dot N" "26465 \<notin> set N"
    using N(2) numeral_glyph_props(1,2) by (auto simp: list_all_iff)
  obtain r where r: "rx_opt ?og (CHINESE_TAIL kf) (P @ 32 # T) ?c1 = Some r"
    "snd r 1 = Some N" "snd r 2 = pc" "snd r 3 \<noteq> None"
  proof (rule disjE [OF P])
    assume p: "P = [] \<and> pc = None"
    obtain r where r: "CHINESE_TAIL kf (32 # T) ?c1 = Some r" "snd r 1 = ?c1 1" "snd r 2 = ?c1 2"
      "snd r 3 \<noteq> None"
      by (rule chinese_tail_result [OF T, of ?c1])
    have "?og (CHINESE_TAIL kf) (32 # T) ?c1 = None" by simp
    then have "rx_opt ?og (CHINESE_TAIL kf) (32 # T) ?c1 = CHINESE_TAIL kf (32 # T) ?c1"
      by (simp add: rx_opt_def)
    then have "rx_opt ?og (CHINESE_TAIL kf) (P @ 32 # T) ?c1 = Some r"
      using r(1) p by simp
    moreover have "snd r 1 = Some N" "snd r 2 = pc" using r(2,3) p by simp_all
    ultimately show ?thesis using r(4) by (rule that)
  next
    assume "\<exists>M. M \<noteq> [] \<and> list_all numeral_glyph M \<and> P = 31532 # M @ [27454] \<and> pc = Some M"
    then obtain M where M: "M \<noteq> []" "list_all numeral_glyph M" "P = 31532 # M @ [27454]" "pc = Some M"
      by blast
    have Mdot: "list_all is_dot M" "27454 \<notin> set M"
      using M(2) numeral_glyph_props(1,3) by (auto simp: list_all_iff)
    obtain r where r: "CHINESE_TAIL kf (32 # T) (?c1(2 \<mapsto> M)) = Some r"
      "snd r 1 = (?c1(2 \<mapsto> M)) 1" "snd r 2 = (?c1(2 \<mapsto> M)) 2" "snd r 3 \<noteq> None"
      by (rule chinese_tail_result [OF T, of "?c1(2 \<mapsto> M)"])
    have "rx_group 2 (rx_lazy_plus is_dot) (rx_lit [27454] (CHINESE_TAIL kf)) (M @ 27454 # 32 # T) ?c1
          = CHINESE_TAIL kf (32 # T) (?c1(2 \<mapsto> M))"
      using M(1) Mdot r(1)
      by (intro group_lazy_delim [where K = "CHINESE_TAIL kf" and u = M and d = 27454
            and v = "32 # T" and n = 2 and c = ?c1]) simp_all
    then have "?og (CHINESE_TAIL kf) (P @ 32 # T) ?c1 = Some r"
      using r(1) M(3) by simp
    then have "rx_opt ?og (CHINESE_TAIL kf) (P @ 32 # T) ?c1 = Some r"
      by (simp add: rx_opt_def)
    moreover have "snd r 1 = Some N" "snd r 2 = pc" using r(2,3) M(4) by simp_all
    ultimately show ?thesis using r(4) by (rule that)
  qed
  have "rx_group 1 (rx_lazy_plus is_dot) (rx_lit [26465] (rx_opt ?og (CHINESE_TAIL kf)))
          (N @ 26465 # P @ 32 # T) (\<lambda>n. None)
        = rx_opt ?og (CHINESE_TAIL kf) (P @ 32 # T) ?c1"
    using N(1) Ndot r(1)
    by (intro group_lazy_delim [where K = "rx_opt ?og (CHINESE_TAIL kf)" and u = N and d = 26465
          and v = "P @ 32 # T" and n = 1 and c = "\<lambda>n. None"]) simp_all
  moreover have "CHINESE_CITATION kf =
      rx_lit [31532] (rx_group 1 (rx_lazy_plus is_dot) (rx_lit [26465] (rx_opt ?og (CHINESE_TAIL kf))))"
    by (simp only: CHINESE_CITATION_def CHINESE_TAIL_def rx_all.simps)
  ultimately have "rx_exec CHINESE_CITATION (31532 # N @ 26465 # P @ 32 # T) = Some r"
    using r(1) by (simp add: rx_exec_def)
  then show ?thesis using r(2,3,4) by (rule that)
qed

lemma lit_i_fail: "\<not> ci_prefix w s \<Longrightarrow> rx_lit_i w k s c = None"
  by (induction w arbitrary: s) (auto split: list.splits)

lemma succ_opt_take:
  assumes "succeeds (a k) s"
  shows "succeeds (rx_opt a k) s"
  unfolding succeeds_def
proof
  fix c
  have "a k s c \<noteq> None" using assms by (simp add: succeeds_def)
  then show "rx_opt a k s c \<noteq> None" by (cases "a k s c") (simp_all add: rx_opt_def)
qed

lemma succ_plus:
  "p x \<Longrightarrow> list_all p u \<Longrightarrow> succeeds k v \<Longrightarrow> succeeds (rx_plus p k) (x # u @ v)"
  by (simp add: succeeds_def rx_plus_def star_succ)

lemma group_plus_exact:
  assumes "u \<noteq> []" "list_all p u" "v = [] \<or> \<not> p (hd v)" "K v (c(n \<mapsto> u)) \<noteq> None"
  shows "rx_group n (rx_plus p) K (u @ v) c = K v (c(n \<mapsto> u))"
proof -
  obtain g gs where u: "u = g # gs" using assms(1) by (cases u) auto
  let ?s = "u @ v"
  let ?k = "\<lambda>s' c'. K s' (c'(n \<mapsto> take (length ?s - length s') ?s))"
  have at: "?k v c = K v (c(n \<mapsto> u))" by simp
  have "rx_star p ?k (gs @ v) c = ?k v c"
    using assms(2,3,4) u at
    by (intro star_exact [where p = p and u = gs and v = v and k = ?k and c = c]) auto
  then show ?thesis
    using assms(2) u at by (simp add: rx_group_def rx_plus_def)
qed

text \<open>The tails of the English and of the short pattern, on a title.\<close>

lemma english_tail_succ:
  assumes "T \<noteq> []" "list_all is_dot T"
  shows "succeeds (ENGLISH_TAIL kf) (44 # 32 # T)"
proof -
  have s0: "succeeds (rx_eol kf) []" by (simp add: succeeds_def)
  have s1: "succeeds (rx_group 3 (rx_lazy_plus is_dot) (rx_eol kf)) (T @ [])"
    using assms s0 by (intro succ_group [where v = "[]"] succ_lazy_plus)
  have s2: "succeeds (rx_plus is_ws (rx_group 3 (rx_lazy_plus is_dot) (rx_eol kf))) (32 # [] @ T)"
    using s1 by (intro succ_plus) (simp_all add: is_ws_def)
  have s3: "succeeds (rx_opt COMMA (rx_plus is_ws (rx_group 3 (rx_lazy_plus is_dot) (rx_eol kf))))
              (44 # 32 # T)"
    using s2 by (intro succ_opt_take) (simp add: COMMA_def succeeds_def)
  have "succeeds (rx_star is_ws (rx_opt COMMA (rx_plus is_ws
              (rx_group 3 (rx_lazy_plus is_dot) (rx_eol kf))))) (44 # 32 # T)"
    using s3 by (rule succ_star0)
  then show ?thesis by (simp add: ENGLISH_TAIL_def)
qed

lemma english_tail_keeps: "rx_inv keeps12 (ENGLISH_TAIL kf)"
proof -
  have "rx_tr keeps12 ENGLISH_TAIL"
    unfolding ENGLISH_TAIL_def COMMA_def
    by (intro tr_rules up_keeps12 stable_keeps12) simp
  then show ?thesis using inv_kf_keeps12 by (rule rx_trD)
qed

lemma english_tail_sets: "rx_inv (\<lambda>s c r. snd r 3 \<noteq> None) (ENGLISH_TAIL kf)"
proof -
  have "rx_tr (\<lambda>s c r. c 3 \<noteq> None \<longrightarrow> snd r 3 \<noteq> None) (rx_all [rx_eol])"
    by (intro tr_rules up_holds)
  then have k: "rx_inv (\<lambda>s c r. c 3 \<noteq> None \<longrightarrow> snd r 3 \<noteq> None) (rx_all [rx_eol] kf)"
    using inv_kf_holds by (rule rx_trD)
  have g: "rx_inv (\<lambda>s c r. snd r 3 \<noteq> None)
             (rx_group 3 (rx_lazy_plus is_dot) (rx_all [rx_eol] kf))"
    using k by (intro group_sets tr_rules up_sets)
  have "rx_tr (\<lambda>s c r. snd r 3 \<noteq> None) (rx_all [rx_star is_ws, rx_opt COMMA, rx_plus is_ws])"
    unfolding COMMA_def by (intro tr_rules up_sets)
  then have "rx_inv (\<lambda>s c r. snd r 3 \<noteq> None)
          (rx_all [rx_star is_ws, rx_opt COMMA, rx_plus is_ws]
             (rx_group 3 (rx_lazy_plus is_dot) (rx_all [rx_eol] kf)))"
    using g by (rule rx_trD)
  then show ?thesis by (simp add: ENGLISH_TAIL_def)
qed

lemma english_tail_result:
  assumes "T \<noteq> []" "list_all is_dot T"
  obtains r where "ENGLISH_TAIL kf (44 # 32 # T) c = Some r" "snd r 1 = c 1" "snd r 2 = c 2"
    "snd r 3 \<noteq> None"
proof -
  have "ENGLISH_TAIL kf (44 # 32 # T) c \<noteq> None"
    using english_tail_succ [OF assms] by (simp add: succeeds_def)
  then obtain r where r: "ENGLISH_TAIL kf (44 # 32 # T) c = Some r"
    by (cases "ENGLISH_TAIL kf (44 # 32 # T) c") auto
  have "snd r 1 = c 1 \<and> snd r 2 = c 2" using english_tail_keeps r by (rule rx_invD)
  moreover have "snd r 3 \<noteq> None" using english_tail_sets r by (rule rx_invD)
  ultimately show ?thesis using r that by simp
qed

lemma short_tail_succ:
  assumes "T \<noteq> []" "list_all is_dot T"
  shows "succeeds (SHORT_TAIL kf) (32 # T)"
proof -
  let ?y = "rx_opt (rx_all [rx_plus is_ws,
         rx_group 4 (rx_all [rx_cls is_digit, rx_cls is_digit, rx_cls is_digit, rx_cls is_digit])])
         (rx_eol kf)"
  have s0: "succeeds ?y []" by (intro succ_opt) (simp add: succeeds_def)
  have s1: "succeeds (rx_group 3 (rx_lazy_plus is_dot) ?y) (T @ [])"
    using assms s0 by (intro succ_group [where v = "[]"] succ_lazy_plus)
  have s2: "succeeds (rx_plus is_ws (rx_group 3 (rx_lazy_plus is_dot) ?y)) (32 # [] @ T)"
    using s1 by (intro succ_plus) (simp_all add: is_ws_def)
  have "succeeds (rx_star is_ws (rx_opt COMMA (rx_plus is_ws
              (rx_group 3 (rx_lazy_plus is_dot) ?y)))) (32 # T)"
    using s2 by (intro succ_star0 succ_opt) simp
  then show ?thesis by (simp add: SHORT_TAIL_def)
qed

lemma short_tail_keeps: "rx_inv keeps12 (SHORT_TAIL kf)"
proof -
  have "rx_tr keeps12 SHORT_TAIL"
    unfolding SHORT_TAIL_def COMMA_def
    by (intro tr_rules up_keeps12 stable_keeps12) simp_all
  then show ?thesis using inv_kf_keeps12 by (rule rx_trD)
qed

lemma short_tail_sets: "rx_inv (\<lambda>s c r. snd r 3 \<noteq> None) (SHORT_TAIL kf)"
proof -
  let ?y = "rx_all [rx_opt (rx_all [rx_plus is_ws,
         rx_group 4 (rx_all [rx_cls is_digit, rx_cls is_digit, rx_cls is_digit, rx_cls is_digit])]),
         rx_eol]"
  have "rx_tr (\<lambda>s c r. c 3 \<noteq> None \<longrightarrow> snd r 3 \<noteq> None) ?y"
    by (intro tr_rules up_holds stable_holds)
  then have k: "rx_inv (\<lambda>s c r. c 3 \<noteq> None \<longrightarrow> snd r 3 \<noteq> None) (?y kf)"
    using inv_kf_holds by (rule rx_trD)
  have g: "rx_inv (\<lambda>s c r. snd r 3 \<noteq> None) (rx_group 3 (rx_lazy_plus is_dot) (?y kf))"
    using k by (intro group_sets tr_rules up_sets)
  have "rx_tr (\<lambda>s c r. snd r 3 \<noteq> None) (rx_all [rx_star is_ws, rx_opt COMMA, rx_plus is_ws])"
    unfolding COMMA_def by (intro tr_rules up_sets)
  then have "rx_inv (\<lambda>s c r. snd r 3 \<noteq> None)
          (rx_all [rx_star is_ws, rx_opt COMMA, rx_plus is_ws]
             (rx_group 3 (rx_lazy_plus is_dot) (?y kf)))"
    using g by (rule rx_trD)
  then show ?thesis by (simp add: SHORT_TAIL_def)
qed

lemma short_tail_result:
  assumes "T \<noteq> []" "list_all is_dot T"
  obtains r where "SHORT_TAIL kf (32 # T) c = Some r" "snd r 1 = c 1" "snd r 2 = c 2"
    "snd r 3 \<noteq> None"
proof -
  have "SHORT_TAIL kf (32 # T) c \<noteq> None"
    using short_tail_succ [OF assms] by (simp add: succeeds_def)
  then obtain r where r: "SHORT_TAIL kf (32 # T) c = Some r"
    by (cases "SHORT_TAIL kf (32 # T) c") auto
  have "snd r 1 = c 1 \<and> snd r 2 = c 2" using short_tail_keeps r by (rule rx_invD)
  moreover have "snd r 3 \<noteq> None" using short_tail_sets r by (rule rx_invD)
  ultimately show ?thesis using r that by simp
qed

lemma lit_i_match: "rx_lit_i w k (w @ s) c = k s c"
  by (induction w) (simp_all add: ci_def)

lemma ci_prefix_append: "ci_prefix (u @ w) s \<Longrightarrow> ci_prefix u s"
  by (induction u arbitrary: s) (auto split: list.splits)

lemma paragraph_fail:
  assumes "\<not> ci_prefix (js ''Par'') T"
  shows "rx_lit_i (js ''Paragraph'') k T c = None"
proof -
  have "js ''Paragraph'' = js ''Par'' @ js ''agraph''" by (simp add: js_def)
  then have "\<not> ci_prefix (js ''Paragraph'') T"
    using assms ci_prefix_append [of "js ''Par''" "js ''agraph''" T] by auto
  then show ?thesis by (rule lit_i_fail)
qed

lemma paragraph_fail_sep:
  "rx_lit_i (js ''Paragraph'') k (32 # s) c = None"
  "rx_lit_i (js ''Paragraph'') k (44 # s) c = None"
  by (simp_all add: js_def ci_def)

lemma ws_facts: "is_ws 32" "\<not> is_ws 44" "\<not> is_ws 80" "\<not> is_ws 46" "\<not> is_digit 44" "\<not> is_digit 32"
  by (simp_all add: is_ws_def is_digit_def)

lemma english_para_fail:
  assumes "\<not> is_ws t" "\<not> ci_prefix (js ''Par'') (t # ts)"
  shows "ENGLISH_PARA K (44 # 32 # t # ts) c = None"
  using assms paragraph_fail [OF assms(2)]
  by (simp add: ENGLISH_PARA_def rx_opt_def COMMA_def ws_facts paragraph_fail_sep)

lemma english_para_match:
  assumes M: "M = m # ms" "is_digit m" "list_all is_digit ms"
    and K: "K (44 # s) (c(2 \<mapsto> M)) = Some r"
  shows "ENGLISH_PARA K (44 # 32 # js ''Paragraph'' @ 32 # M @ 44 # s) c = Some r"
proof -
  let ?k5 = "rx_group 2 (rx_plus is_digit) K"
  let ?k4 = "rx_plus is_ws ?k5"
  let ?k3 = "rx_lit_i (js ''Paragraph'') ?k4"
  let ?k2 = "rx_star is_ws ?k3"
  let ?k1 = "rx_opt COMMA ?k2"
  have "?k5 (M @ 44 # s) c = K (44 # s) (c(2 \<mapsto> M))"
    by (rule group_plus_exact [where u = M and v = "44 # s" and p = is_digit and K = K
          and n = 2 and c = c]) (use M K in \<open>simp_all add: ws_facts\<close>)
  then have z5: "?k5 (M @ 44 # s) c = Some r"
    using K by simp
  have z4: "?k4 (32 # M @ 44 # s) c = Some r"
    using z5 M(1,2) by (simp add: rx_plus_def ws_facts digit_not_ws)
  have z3: "?k3 (js ''Paragraph'' @ 32 # M @ 44 # s) c = Some r"
    using z4 by (simp only: lit_i_match)
  have hd: "hd (js ''Paragraph'' @ 32 # M @ 44 # s) = 80" by (simp add: js_def)
  have "rx_star is_ws ?k3 ([32] @ js ''Paragraph'' @ 32 # M @ 44 # s) c
        = ?k3 (js ''Paragraph'' @ 32 # M @ 44 # s) c"
    using z3 hd
    by (intro star_exact [where p = is_ws and u = "[32]" and k = ?k3 and c = c
          and v = "js ''Paragraph'' @ 32 # M @ 44 # s"]) (simp_all add: ws_facts)
  then have z2: "?k2 (32 # js ''Paragraph'' @ 32 # M @ 44 # s) c = Some r"
    using z3 by simp
  have z1: "?k1 (44 # 32 # js ''Paragraph'' @ 32 # M @ 44 # s) c = Some r"
    using z2 by (simp add: rx_opt_def COMMA_def)
  have "rx_star is_ws ?k1 (44 # 32 # js ''Paragraph'' @ 32 # M @ 44 # s) c = Some r"
    using z1 by (simp add: ws_facts)
  then show ?thesis by (simp only: ENGLISH_PARA_def rx_all.simps)
qed

lemma english_match:
  assumes A: "A = d # ds" "is_digit d" "list_all is_digit ds"
    and P: "(P = [] \<and> pc = None) \<or>
            (\<exists>m ms. is_digit m \<and> list_all is_digit ms \<and>
               P = 44 # 32 # js ''Paragraph'' @ 32 # m # ms \<and> pc = Some (m # ms))"
    and T: "T = t # ts" "list_all is_dot T" "\<not> is_ws t" "\<not> ci_prefix (js ''Par'') T"
  obtains r where "rx_exec ENGLISH_CITATION (js ''Article'' @ 32 # A @ P @ 44 # 32 # T) = Some r"
    "snd r 1 = Some A" "snd r 2 = pc" "snd r 3 \<noteq> None"
proof -
  let ?c1 = "((\<lambda>n. None)(1 \<mapsto> A)) :: caps"
  let ?K = "rx_opt ENGLISH_PARA (ENGLISH_TAIL kf)"
  have Tne: "T \<noteq> []" using T(1) by simp
  obtain r where r: "?K (P @ 44 # 32 # T) ?c1 = Some r"
    "snd r 1 = Some A" "snd r 2 = pc" "snd r 3 \<noteq> None"
  proof (rule disjE [OF P])
    assume p: "P = [] \<and> pc = None"
    obtain r where r: "ENGLISH_TAIL kf (44 # 32 # T) ?c1 = Some r" "snd r 1 = ?c1 1"
      "snd r 2 = ?c1 2" "snd r 3 \<noteq> None"
      by (rule english_tail_result [OF Tne T(2), of ?c1])
    have "ENGLISH_PARA (ENGLISH_TAIL kf) (44 # 32 # T) ?c1 = None"
      using T(1,3,4) by (simp add: english_para_fail)
    then have "?K (P @ 44 # 32 # T) ?c1 = Some r"
      using r(1) p by (simp add: rx_opt_def)
    moreover have "snd r 1 = Some A" "snd r 2 = pc" using r(2,3) p by simp_all
    ultimately show ?thesis using r(4) by (rule that)
  next
    assume "\<exists>m ms. is_digit m \<and> list_all is_digit ms \<and>
               P = 44 # 32 # js ''Paragraph'' @ 32 # m # ms \<and> pc = Some (m # ms)"
    then obtain m ms where M: "is_digit m" "list_all is_digit ms"
      "P = 44 # 32 # js ''Paragraph'' @ 32 # m # ms" "pc = Some (m # ms)" by blast
    obtain r where r: "ENGLISH_TAIL kf (44 # 32 # T) (?c1(2 \<mapsto> m # ms)) = Some r"
      "snd r 1 = (?c1(2 \<mapsto> m # ms)) 1" "snd r 2 = (?c1(2 \<mapsto> m # ms)) 2" "snd r 3 \<noteq> None"
      by (rule english_tail_result [OF Tne T(2), of "?c1(2 \<mapsto> m # ms)"])
    have "ENGLISH_PARA (ENGLISH_TAIL kf) (44 # 32 # js ''Paragraph'' @ 32 # (m # ms) @ 44 # 32 # T) ?c1
          = Some r"
      using M(1,2) r(1)
      by (intro english_para_match [where m = m and ms = ms and K = "ENGLISH_TAIL kf"
            and M = "m # ms" and s = "32 # T" and c = ?c1 and r = r]) simp_all
    then have "?K (P @ 44 # 32 # T) ?c1 = Some r"
      using M(3) by (simp add: rx_opt_def)
    moreover have "snd r 1 = Some A" "snd r 2 = pc" using r(2,3) M(4) by simp_all
    ultimately show ?thesis using r(4) by (rule that)
  qed
  have hdP: "hd (P @ 44 # 32 # T) = 44"
    using P by auto
  have "rx_group 1 (rx_plus is_digit) ?K (A @ P @ 44 # 32 # T) (\<lambda>n. None)
        = ?K (P @ 44 # 32 # T) ?c1"
    by (rule group_plus_exact [where u = A and v = "P @ 44 # 32 # T" and p = is_digit
          and K = ?K and n = 1 and c = "\<lambda>n. None"])
       (use A r(1) hdP in \<open>simp_all add: ws_facts\<close>)
  then have g1: "rx_group 1 (rx_plus is_digit) ?K (A @ P @ 44 # 32 # T) (\<lambda>n. None) = Some r"
    using r(1) by simp
  have g0: "rx_plus is_ws (rx_group 1 (rx_plus is_digit) ?K) (32 # A @ P @ 44 # 32 # T) (\<lambda>n. None)
            = Some r"
    using g1 A(1,2) by (simp add: rx_plus_def ws_facts digit_not_ws)
  have "ENGLISH_CITATION kf =
      rx_lit_i (js ''Article'') (rx_plus is_ws (rx_group 1 (rx_plus is_digit) ?K))"
    by (simp only: ENGLISH_CITATION_def ENGLISH_PARA_def ENGLISH_TAIL_def rx_all.simps)
  then have "rx_exec ENGLISH_CITATION (js ''Article'' @ 32 # A @ P @ 44 # 32 # T) = Some r"
    using g0 by (simp only: rx_exec_def lit_i_match)
  then show ?thesis using r(2,3,4) by (rule that)
qed

lemma par_fail_sep:
  "rx_lit_i (js ''Par'') k (32 # s) c = None"
  by (simp add: js_def ci_def)

lemma short_para_fail:
  assumes "\<not> is_ws t" "t \<noteq> 44" "\<not> is_digit t" "\<not> ci_prefix (js ''Par'') (t # ts)"
  shows "SHORT_PARA K (32 # t # ts) c = None"
  using assms lit_i_fail [OF assms(4)]
  by (simp add: SHORT_PARA_def rx_opt_def COMMA_def ws_facts par_fail_sep rx_group_def rx_plus_def)

lemma short_para_match:
  assumes M: "M = m # ms" "is_digit m" "list_all is_digit ms"
    and K: "K (32 # s) (c(2 \<mapsto> M)) = Some r"
  shows "SHORT_PARA K (44 # 32 # js ''Par'' @ 97 # 46 # 32 # M @ 32 # s) c = Some r"
proof -
  let ?k6 = "rx_group 2 (rx_plus is_digit) K"
  let ?k5 = "rx_star is_ws ?k6"
  let ?k4 = "rx_opt DOT ?k5"
  let ?k3 = "rx_opt (rx_cls (ci 97)) ?k4"
  let ?w = "rx_all [rx_lit_i (js ''Par''), rx_opt (rx_cls (ci 97)), rx_opt DOT, rx_star is_ws]"
  let ?k2 = "rx_star is_ws (rx_opt ?w ?k6)"
  let ?k1 = "rx_opt COMMA ?k2"
  have "?k6 (M @ 32 # s) c = K (32 # s) (c(2 \<mapsto> M))"
    by (rule group_plus_exact [where u = M and v = "32 # s" and p = is_digit and K = K
          and n = 2 and c = c]) (use M K in \<open>simp_all add: ws_facts\<close>)
  then have z6: "?k6 (M @ 32 # s) c = Some r"
    using K by simp
  have z5: "?k5 (32 # M @ 32 # s) c = Some r"
    using z6 M(1,2) by (simp add: ws_facts digit_not_ws)
  have z4: "?k4 (46 # 32 # M @ 32 # s) c = Some r"
    using z5 by (simp add: rx_opt_def DOT_def)
  have z3: "?k3 (97 # 46 # 32 # M @ 32 # s) c = Some r"
    using z4 by (simp add: rx_opt_def ci_def)
  have "?w ?k6 (js ''Par'' @ 97 # 46 # 32 # M @ 32 # s) c = Some r"
    using z3 by (simp only: rx_all.simps lit_i_match)
  then have zw: "rx_opt ?w ?k6 (js ''Par'' @ 97 # 46 # 32 # M @ 32 # s) c = Some r"
    by (simp add: rx_opt_def)
  have hd: "hd (js ''Par'' @ 97 # 46 # 32 # M @ 32 # s) = 80" by (simp add: js_def)
  have "rx_star is_ws (rx_opt ?w ?k6) ([32] @ js ''Par'' @ 97 # 46 # 32 # M @ 32 # s) c
        = rx_opt ?w ?k6 (js ''Par'' @ 97 # 46 # 32 # M @ 32 # s) c"
    using zw hd
    by (intro star_exact [where p = is_ws and u = "[32]" and k = "rx_opt ?w ?k6" and c = c
          and v = "js ''Par'' @ 97 # 46 # 32 # M @ 32 # s"]) (simp_all add: ws_facts)
  then have z2: "?k2 (32 # js ''Par'' @ 97 # 46 # 32 # M @ 32 # s) c = Some r"
    using zw by simp
  have z1: "?k1 (44 # 32 # js ''Par'' @ 97 # 46 # 32 # M @ 32 # s) c = Some r"
    using z2 by (simp add: rx_opt_def COMMA_def)
  have "rx_star is_ws ?k1 (44 # 32 # js ''Par'' @ 97 # 46 # 32 # M @ 32 # s) c = Some r"
    using z1 by (simp add: ws_facts)
  then show ?thesis by (simp only: SHORT_PARA_def rx_all.simps)
qed

lemma short_match:
  assumes A: "A = d # ds" "is_digit d" "list_all is_digit ds"
    and P: "(P = [] \<and> pc = None) \<or>
            (\<exists>m ms. is_digit m \<and> list_all is_digit ms \<and>
               P = 44 # 32 # js ''Par'' @ 97 # 46 # 32 # m # ms \<and> pc = Some (m # ms))"
    and T: "T = t # ts" "list_all is_dot T" "\<not> is_ws t" "t \<noteq> 44" "\<not> is_digit t"
           "\<not> ci_prefix (js ''Par'') T"
  obtains r where "rx_exec SHORT_CITATION (js ''Art'' @ 46 # 32 # A @ P @ 32 # T) = Some r"
    "snd r 1 = Some A" "snd r 2 = pc" "snd r 3 \<noteq> None"
proof -
  let ?c1 = "((\<lambda>n. None)(1 \<mapsto> A)) :: caps"
  let ?K = "rx_opt SHORT_PARA (SHORT_TAIL kf)"
  have Tne: "T \<noteq> []" using T(1) by simp
  obtain r where r: "?K (P @ 32 # T) ?c1 = Some r"
    "snd r 1 = Some A" "snd r 2 = pc" "snd r 3 \<noteq> None"
  proof (rule disjE [OF P])
    assume p: "P = [] \<and> pc = None"
    obtain r where r: "SHORT_TAIL kf (32 # T) ?c1 = Some r" "snd r 1 = ?c1 1"
      "snd r 2 = ?c1 2" "snd r 3 \<noteq> None"
      by (rule short_tail_result [OF Tne T(2), of ?c1])
    have "SHORT_PARA (SHORT_TAIL kf) (32 # T) ?c1 = None"
      using T(1,3,4,5,6) by (simp add: short_para_fail)
    then have "?K (P @ 32 # T) ?c1 = Some r"
      using r(1) p by (simp add: rx_opt_def)
    moreover have "snd r 1 = Some A" "snd r 2 = pc" using r(2,3) p by simp_all
    ultimately show ?thesis using r(4) by (rule that)
  next
    assume "\<exists>m ms. is_digit m \<and> list_all is_digit ms \<and>
               P = 44 # 32 # js ''Par'' @ 97 # 46 # 32 # m # ms \<and> pc = Some (m # ms)"
    then obtain m ms where M: "is_digit m" "list_all is_digit ms"
      "P = 44 # 32 # js ''Par'' @ 97 # 46 # 32 # m # ms" "pc = Some (m # ms)" by blast
    obtain r where r: "SHORT_TAIL kf (32 # T) (?c1(2 \<mapsto> m # ms)) = Some r"
      "snd r 1 = (?c1(2 \<mapsto> m # ms)) 1" "snd r 2 = (?c1(2 \<mapsto> m # ms)) 2" "snd r 3 \<noteq> None"
      by (rule short_tail_result [OF Tne T(2), of "?c1(2 \<mapsto> m # ms)"])
    have "SHORT_PARA (SHORT_TAIL kf) (44 # 32 # js ''Par'' @ 97 # 46 # 32 # (m # ms) @ 32 # T) ?c1
          = Some r"
      using M(1,2) r(1)
      by (intro short_para_match [where m = m and ms = ms and K = "SHORT_TAIL kf"
            and M = "m # ms" and s = T and c = ?c1 and r = r]) simp_all
    then have "?K (P @ 32 # T) ?c1 = Some r"
      using M(3) by (simp add: rx_opt_def)
    moreover have "snd r 1 = Some A" "snd r 2 = pc" using r(2,3) M(4) by simp_all
    ultimately show ?thesis using r(4) by (rule that)
  qed
  have hdP: "hd (P @ 32 # T) = 44 \<or> hd (P @ 32 # T) = 32"
    using P by auto
  have "rx_group 1 (rx_plus is_digit) ?K (A @ P @ 32 # T) (\<lambda>n. None) = ?K (P @ 32 # T) ?c1"
    by (rule group_plus_exact [where u = A and v = "P @ 32 # T" and p = is_digit
          and K = ?K and n = 1 and c = "\<lambda>n. None"])
       (use A r(1) hdP in \<open>auto simp: ws_facts\<close>)
  then have g1: "rx_group 1 (rx_plus is_digit) ?K (A @ P @ 32 # T) (\<lambda>n. None) = Some r"
    using r(1) by simp
  have g0: "rx_star is_ws (rx_group 1 (rx_plus is_digit) ?K) (32 # A @ P @ 32 # T) (\<lambda>n. None)
            = Some r"
    using g1 A(1,2) by (simp add: ws_facts digit_not_ws)
  have g00: "rx_opt DOT (rx_star is_ws (rx_group 1 (rx_plus is_digit) ?K))
               (46 # 32 # A @ P @ 32 # T) (\<lambda>n. None) = Some r"
    using g0 by (simp add: rx_opt_def DOT_def)
  have "SHORT_CITATION kf =
      rx_lit_i (js ''Art'') (rx_opt DOT (rx_star is_ws (rx_group 1 (rx_plus is_digit) ?K)))"
    by (simp only: SHORT_CITATION_def SHORT_PARA_def SHORT_TAIL_def rx_all.simps)
  then have "rx_exec SHORT_CITATION (js ''Art'' @ 46 # 32 # A @ P @ 32 # T) = Some r"
    using g00 by (simp only: rx_exec_def lit_i_match)
  then show ?thesis using r(2,3,4) by (rule that)
qed

lemma cls_SomeD: "rx_cls p k s c = Some r \<Longrightarrow> s \<noteq> [] \<and> p (hd s)"
  by (cases s) (auto split: if_splits)

lemma law_first_needs_marker: "rx_inv has_marker (CHINESE_LAW_FIRST kf)"
proof -
  let ?rest = "rx_all [rx_group 2 (rx_lazy_plus is_dot), rx_lit [26465],
      rx_opt (rx_all [rx_lit [31532], rx_group 3 (rx_lazy_plus is_dot), rx_lit [27454]]), rx_eol]"
  let ?pre = "rx_all [rx_opt (rx_lit PRC_PREFIX),
      rx_group 1 (rx_all [rx_lazy_plus is_dot, LAW_SUFFIX]),
      rx_star is_ws, rx_opt ANY_COMMA, rx_star is_ws]"
  have up: "rx_up has_marker" by (simp add: rx_up_def)
  have st: "\<And>n. rx_stable has_marker n" by (simp add: rx_stable_def)
  have k: "rx_inv has_marker (rx_lit [31532] (?rest kf))"
  proof (rule rx_invI)
    fix s c r
    assume "rx_lit [31532] (?rest kf) s c = Some r"
    then have "rx_cls (\<lambda>x. x = 31532) (?rest kf) s c = Some r" by simp
    then have "s \<noteq> [] \<and> hd s = 31532" by (rule cls_SomeD)
    then show "31532 \<in> set s" by (cases s) auto
  qed
  have "rx_tr has_marker ?pre"
    unfolding LAW_SUFFIX_def ANY_COMMA_def by (intro tr_rules up st)
  then have "rx_inv has_marker (?pre (rx_lit [31532] (?rest kf)))"
    using k by (rule rx_trD)
  then show ?thesis by (simp only: CHINESE_LAW_FIRST_def rx_all.simps)
qed

lemma law_first_fail: "31532 \<notin> set s \<Longrightarrow> rx_exec CHINESE_LAW_FIRST s = None"
proof (rule ccontr)
  assume no: "31532 \<notin> set s" and "rx_exec CHINESE_LAW_FIRST s \<noteq> None"
  then obtain r where "CHINESE_LAW_FIRST kf s (\<lambda>n. None) = Some r"
    by (auto simp: rx_exec_def)
  then have "31532 \<in> set s" using law_first_needs_marker by (rule rx_invD [rotated])
  then show False using no by simp
qed

lemma chinese_citation_fail: "x \<noteq> 31532 \<Longrightarrow> rx_exec CHINESE_CITATION (x # s) = None"
  by (simp add: rx_exec_def CHINESE_CITATION_def)

lemma id_fail_article:
  assumes "is_digit d"
  shows "rx_exec ID_CITATION (js ''Article'' @ 32 # d # s) = None"
proof -
  have d: "48 \<le> d" "d \<le> 57" using assms by (simp_all add: is_digit_def)
  show ?thesis
    using d
    by (simp add: rx_exec_def ID_CITATION_def rx_group_def rx_plus_def rx_opt_def rx_alt_def
          COMMA_def DOT_def js_def is_alpha_def is_word_def is_digit_def is_ws_def ci_def)
qed

lemma id_fail_art:
  "rx_exec ID_CITATION (js ''Art'' @ 46 # s) = None"
  by (simp add: rx_exec_def ID_CITATION_def rx_group_def rx_plus_def rx_opt_def rx_alt_def
        COMMA_def DOT_def js_def is_alpha_def is_word_def is_digit_def is_ws_def ci_def)

lemma english_fail_art:
  "rx_exec ENGLISH_CITATION (js ''Art'' @ 46 # s) = None"
  by (simp add: rx_exec_def ENGLISH_CITATION_def js_def ci_def)

lemma strip_trailing_comma_id:
  "s \<noteq> [] \<Longrightarrow> \<not> is_ws (last s) \<Longrightarrow> last s \<noteq> 44 \<Longrightarrow> strip_trailing_comma s = s"
proof (induction s)
  case Nil
  then show ?case by simp
next
  case (Cons c cs)
  show ?case
  proof (cases "cs = []")
    case True
    then show ?thesis using Cons.prems by simp
  next
    case False
    then have "\<not> list_all is_ws cs"
      using Cons.prems(2) by (auto simp: list_all_iff)
    then show ?thesis using Cons False by simp
  qed
qed

lemma or_undefined_digits:
  "pc = None \<or> (\<exists>m ms. pc = Some (m # ms)) \<Longrightarrow> or_undefined pc = pc"
  by (auto simp: or_undefined_def truthy_def)

lemma digit_not_marker: "list_all is_digit A \<Longrightarrow> 31532 \<notin> set A"
  by (auto simp: list_all_iff is_digit_def)

lemma js_no_marker:
  "31532 \<notin> set (js ''Paragraph'')" "31532 \<notin> set (js ''Par'')"
  "31532 \<notin> set (js ''Article'')" "31532 \<notin> set (js ''Art'')"
  by (simp_all add: js_def)

lemma parse_english:
  assumes A: "A = d # ds" "is_digit d" "list_all is_digit ds"
    and P: "(P = [] \<and> pc = None) \<or>
            (\<exists>m ms. is_digit m \<and> list_all is_digit ms \<and>
               P = 44 # 32 # js ''Paragraph'' @ 32 # m # ms \<and> pc = Some (m # ms))"
    and T: "plain_title T"
  shows "\<exists>p. parseCitation (js ''Article'' @ 32 # A @ P @ 44 # 32 # T) = Inr p \<and> valid p \<and>
             article p = Some A \<and> paragraph_num p = pc"
proof -
  define S where "S = js ''Article'' @ 32 # A @ P @ 44 # 32 # T"
  obtain t ts where t: "T = t # ts" using T by (cases T) (auto simp: plain_title_def)
  have Tp: "list_all is_dot T" "\<not> is_ws t" "\<not> ci_prefix (js ''Par'') T" "\<not> is_ws (last T)"
    "31532 \<notin> set T"
    using T t by (auto simp: plain_title_def)
  have S65: "S = 65 # tl S" by (simp add: S_def js_def)
  have lastS: "last S = last T" using t by (simp add: S_def)
  have hdS: "S \<noteq> []" "\<not> is_ws (hd S)" by (simp_all add: S_def js_def is_ws_def)
  have tr: "trim S = S"
    using hdS by (rule trim_id) (simp add: lastS Tp(4))
  have noP: "31532 \<notin> set P"
  proof (rule disjE [OF P])
    assume "P = [] \<and> pc = None"
    then show ?thesis by simp
  next
    assume "\<exists>m ms. is_digit m \<and> list_all is_digit ms \<and>
               P = 44 # 32 # js ''Paragraph'' @ 32 # m # ms \<and> pc = Some (m # ms)"
    then obtain m ms where m: "is_digit m" "list_all is_digit ms"
      "P = 44 # 32 # js ''Paragraph'' @ 32 # m # ms" by blast
    have "31532 \<notin> set (m # ms)" by (rule digit_not_marker) (simp add: m)
    then show ?thesis by (simp add: m(3) js_no_marker)
  qed
  have "31532 \<notin> set A" using A by (intro digit_not_marker) simp
  then have noS: "31532 \<notin> set S"
    using noP Tp(5) by (simp add: S_def js_no_marker)
  have f1: "rx_exec ID_CITATION S = None"
    unfolding S_def using A(1,2) by (simp add: id_fail_article)
  have f2: "rx_exec CHINESE_CITATION S = None"
    by (subst S65) (simp add: chinese_citation_fail)
  have f3: "rx_exec CHINESE_LAW_FIRST S = None"
    using noS by (rule law_first_fail)
  obtain r where r: "rx_exec ENGLISH_CITATION S = Some r"
    "snd r 1 = Some A" "snd r 2 = pc" "snd r 3 \<noteq> None"
    unfolding S_def by (rule english_match [OF A P t Tp(1,2,3)])
  obtain g where g: "snd r 3 = Some g" using r(4) by auto
  have pc: "or_undefined pc = pc" using P by (intro or_undefined_digits) auto
  have "parseCitation S =
      Inr \<lparr>valid = True, type = statute, ParsedCitation.title = None, title_en = Some (trim g),
           article = Some A, paragraph_num = pc, error = None\<rparr>"
    using tr f1 f2 f3 r(1,2,3) g pc by (simp add: parseCitation_def)
  then show ?thesis unfolding S_def by simp
qed

lemma parse_short:
  assumes A: "A = d # ds" "is_digit d" "list_all is_digit ds"
    and P: "(P = [] \<and> pc = None) \<or>
            (\<exists>m ms. is_digit m \<and> list_all is_digit ms \<and>
               P = 44 # 32 # js ''Par'' @ 97 # 46 # 32 # m # ms \<and> pc = Some (m # ms))"
    and T: "plain_title T"
  shows "\<exists>p. parseCitation (js ''Art'' @ 46 # 32 # A @ P @ 32 # T) = Inr p \<and> valid p \<and>
             article p = Some A \<and> paragraph_num p = pc"
proof -
  define S where "S = js ''Art'' @ 46 # 32 # A @ P @ 32 # T"
  obtain t ts where t: "T = t # ts" using T by (cases T) (auto simp: plain_title_def)
  have Tp: "list_all is_dot T" "\<not> is_ws t" "t \<noteq> 44" "\<not> is_digit t"
    "\<not> ci_prefix (js ''Par'') T"
    using T t by (auto simp: plain_title_def)
  have Tq: "\<not> is_ws (last T)" "31532 \<notin> set T"
    using T by (auto simp: plain_title_def)
  have S65: "S = 65 # tl S" by (simp add: S_def js_def)
  have Sart: "S = js ''Art'' @ 46 # tl (tl (tl (tl S)))" by (simp add: S_def js_def)
  have lastS: "last S = last T" using t by (simp add: S_def)
  have hdS: "S \<noteq> []" "\<not> is_ws (hd S)" by (simp_all add: S_def js_def is_ws_def)
  have tr: "trim S = S"
    using hdS by (rule trim_id) (simp add: lastS Tq(1))
  have noP: "31532 \<notin> set P"
  proof (rule disjE [OF P])
    assume "P = [] \<and> pc = None"
    then show ?thesis by simp
  next
    assume "\<exists>m ms. is_digit m \<and> list_all is_digit ms \<and>
               P = 44 # 32 # js ''Par'' @ 97 # 46 # 32 # m # ms \<and> pc = Some (m # ms)"
    then obtain m ms where m: "is_digit m" "list_all is_digit ms"
      "P = 44 # 32 # js ''Par'' @ 97 # 46 # 32 # m # ms" by blast
    have "31532 \<notin> set (m # ms)" by (rule digit_not_marker) (simp add: m)
    then show ?thesis by (simp add: m(3) js_no_marker)
  qed
  have "31532 \<notin> set A" using A by (intro digit_not_marker) simp
  then have noS: "31532 \<notin> set S"
    using noP Tq(2) by (simp add: S_def js_no_marker)
  have f1: "rx_exec ID_CITATION S = None"
    by (subst Sart) (rule id_fail_art)
  have f2: "rx_exec CHINESE_CITATION S = None"
    by (subst S65) (simp add: chinese_citation_fail)
  have f3: "rx_exec CHINESE_LAW_FIRST S = None"
    using noS by (rule law_first_fail)
  have f4: "rx_exec ENGLISH_CITATION S = None"
    by (subst Sart) (rule english_fail_art)
  obtain r where r: "rx_exec SHORT_CITATION S = Some r"
    "snd r 1 = Some A" "snd r 2 = pc" "snd r 3 \<noteq> None"
    unfolding S_def by (rule short_match [OF A P t Tp])
  obtain g where g: "snd r 3 = Some g" using r(4) by auto
  have pc: "or_undefined pc = pc" using P by (intro or_undefined_digits) auto
  have "parseCitation S =
      Inr \<lparr>valid = True, type = statute, ParsedCitation.title = Some (trim g), title_en = None,
           article = Some A, paragraph_num = pc, error = None\<rparr>"
    using tr f1 f2 f3 f4 r(1,2,3) g pc by (simp add: parseCitation_def)
  then show ?thesis unfolding S_def by simp
qed

lemma numeral_number:
  assumes "1 \<le> n" "n \<le> 9999"
  shows "parseChineseNumber (arabicToChinese n) = Inr (Some n)"
proof -
  let ?N = "arabicToChinese n"
  have N: "?N \<noteq> []" "list_all numeral_glyph ?N"
    using assms by (rule arabicToChinese_glyphs)+
  have Ndot: "list_all is_dot ?N" "26465 \<notin> set ?N"
    using N(2) numeral_glyph_props(1,2) by (auto simp: list_all_iff)
  have pi: "parseInt ?N = None" using N by (rule parseInt_numeral)
  have tr: "trim ?N = ?N" using N by (rule trim_numeral)
  have "rx_group 1 (rx_lazy_plus is_dot) (rx_lit [26465] kf) (?N @ 26465 # []) (\<lambda>n. None)
        = kf [] ((\<lambda>n. None)(1 \<mapsto> ?N))"
    by (rule group_lazy_delim [where K = kf and u = ?N and d = 26465 and v = "[]" and n = 1
          and c = "\<lambda>n. None"]) (use N(1) Ndot in simp_all)
  then have "rx_exec ARTICLE_REF (31532 # ?N @ [26465]) = Some ([], (\<lambda>n. None)(1 \<mapsto> ?N))"
    by (simp add: rx_exec_def ARTICLE_REF_def)
  then have "extractArticleNumber (31532 # ?N @ [26465]) = Inr (Some (chineseToArabic ?N))"
    using pi tr by (simp add: extractArticleNumber_def)
  then show ?thesis
    using pi chineseToArabic_arabicToChinese [OF assms] by (simp add: parseChineseNumber_def)
qed

lemma parse_chinese:
  assumes n: "1 \<le> n" "n \<le> 9999"
    and mo: "case mo of None \<Rightarrow> True | Some m \<Rightarrow> 1 \<le> m \<and> m \<le> 9999"
    and T: "law_title T"
  shows "\<exists>p. parseCitation (buildChineseRef n mo @ 32 # T) = Inr p \<and> valid p \<and>
             article p = Some (String_of n) \<and> paragraph_num p = map_option String_of mo"
proof -
  let ?N = "arabicToChinese n"
  define P where "P = (case mo of None \<Rightarrow> [] | Some m \<Rightarrow> 31532 # arabicToChinese m @ [27454])"
  define pc where "pc = map_option arabicToChinese mo"
  define S where "S = 31532 # ?N @ 26465 # P @ 32 # T"
  have N: "?N \<noteq> []" "list_all numeral_glyph ?N"
    using n by (rule arabicToChinese_glyphs)+
  have S: "buildChineseRef n mo @ 32 # T = S"
    using mo by (cases mo) (auto simp: buildChineseRef_def S_def P_def)
  have Pc: "(P = [] \<and> pc = None) \<or>
            (\<exists>M. M \<noteq> [] \<and> list_all numeral_glyph M \<and> P = 31532 # M @ [27454] \<and> pc = Some M)"
  proof (cases mo)
    case None
    then show ?thesis by (simp add: P_def pc_def)
  next
    case (Some m)
    then have "1 \<le> m" "m \<le> 9999" using mo by simp_all
    then have "arabicToChinese m \<noteq> []" "list_all numeral_glyph (arabicToChinese m)"
      by (rule arabicToChinese_glyphs)+
    then show ?thesis using Some by (simp add: P_def pc_def)
  qed
  have Tl: "T \<noteq> []" "\<not> is_ws (last T)" using law_title_last [OF T] by simp_all
  have hdS: "S \<noteq> []" "\<not> is_ws (hd S)" by (simp_all add: S_def is_ws_def)
  have lastS: "last S = last T" using Tl(1) by (simp add: S_def)
  have tr: "trim S = S" using hdS by (rule trim_id) (simp add: lastS Tl(2))
  have f1: "rx_exec ID_CITATION S = None"
    by (simp add: S_def rx_exec_def ID_CITATION_def rx_group_def is_alpha_def)
  obtain r where r: "rx_exec CHINESE_CITATION S = Some r"
    "snd r 1 = Some ?N" "snd r 2 = pc" "snd r 3 \<noteq> None"
    unfolding S_def by (rule chinese_match [OF N Pc T])
  obtain g where g: "snd r 3 = Some g" using r(4) by auto
  have art: "chinese_article (Some ?N) = Inr (Some (String_of n))"
    using numeral_number [OF n] by (simp add: chinese_article_def js_str_def)
  have par: "chinese_paragraph pc = Inr (map_option String_of mo)"
  proof (cases mo)
    case None
    then show ?thesis by (simp add: pc_def chinese_paragraph_def truthy_def)
  next
    case (Some m)
    then have m: "1 \<le> m" "m \<le> 9999" using mo by simp_all
    have "arabicToChinese m \<noteq> []" using m by (rule arabicToChinese_glyphs)
    then show ?thesis
      using Some numeral_number [OF m]
      by (simp add: pc_def chinese_paragraph_def truthy_def js_str_def)
  qed
  have "\<exists>t. parseCitation S =
      Inr \<lparr>valid = True, type = statute, ParsedCitation.title = Some t, title_en = None,
           article = Some (String_of n), paragraph_num = map_option String_of mo, error = None\<rparr>"
    using tr f1 r(1,2,3) g art par by (simp add: parseCitation_def)
  then show ?thesis unfolding S by auto
qed

lemma format_strings:
  assumes c: "valid c" "article c = Some A" "A \<noteq> []" "paragraph_num c = pc"
      "pc = None \<or> (\<exists>M. M \<noteq> [] \<and> pc = Some M)"
    and title: "(ParsedCitation.title c = Some T \<and> title_en c = None) \<or>
                (ParsedCitation.title c = None \<and> title_en c = Some T)"
  shows "formatCitation c English =
           strip_trailing_comma (trim (js ''Article'' @ 32 # A @
             (case pc of None \<Rightarrow> [] | Some M \<Rightarrow> 44 # 32 # js ''Paragraph'' @ 32 # M) @ 44 # 32 # T))"
    and "formatCitation c Full =
           strip_trailing_comma (trim (js ''Article'' @ 32 # A @
             (case pc of None \<Rightarrow> [] | Some M \<Rightarrow> 44 # 32 # js ''Paragraph'' @ 32 # M) @ 44 # 32 # T))"
    and "formatCitation c Short =
           trim (js ''Art'' @ 46 # 32 # A @
             (case pc of None \<Rightarrow> [] | Some M \<Rightarrow> 44 # 32 # js ''Par'' @ 97 # 46 # 32 # M) @ 32 # T)"
    and "formatCitation c Chinese =
           trim (buildChineseRef (case parseInt A of None \<Rightarrow> 0 | Some a \<Rightarrow> a)
                   (case pc of None \<Rightarrow> None | Some M \<Rightarrow> parseInt M) @ 32 # T)"
  using c title
  by (auto simp: formatCitation_def Let_def truthy_def js_def)

lemma digits_cons:
  assumes "0 \<le> n"
  obtains d ds where "String_of n = d # ds" "is_digit d" "list_all is_digit ds"
proof -
  have "String_of n \<noteq> [] \<and> list_all is_digit (String_of n)"
    using assms by (rule String_of_digits)
  then show ?thesis using that by (cases "String_of n") auto
qed

text \<open>
  Claim C4, as amended. Take a valid citation whose article is the decimal numeral of an
  integer from 1 to 9999, whose paragraph is absent or such a numeral, and which has one
  title \<open>T\<close> (in \<open>title\<close> or in \<open>title_en\<close>). Parsing what \<^verbatim>\<open>formatCitation\<close> writes
  gives a valid citation with the same article and the same paragraph: for the styles
  \<^verbatim>\<open>english\<close>, \<^verbatim>\<open>full\<close> and \<^verbatim>\<open>short\<close> when \<open>T\<close> is a plain title, and for the style
  \<^verbatim>\<open>chinese\<close> when \<open>T\<close> is a law title.
\<close>

theorem citation_roundtrip:
  assumes "valid c"
    and "1 \<le> n" "n \<le> 9999" "article c = Some (String_of n)"
    and "case mo of None \<Rightarrow> True | Some m \<Rightarrow> 1 \<le> m \<and> m \<le> 9999"
    and "paragraph_num c = map_option String_of mo"
    and "(ParsedCitation.title c = Some T \<and> title_en c = None) \<or>
         (ParsedCitation.title c = None \<and> title_en c = Some T)"
    and "((style = English \<or> style = Full \<or> style = Short) \<and> plain_title T) \<or>
         (style = Chinese \<and> law_title T)"
  shows "\<exists>p. parseCitation (formatCitation c style) = Inr p \<and> valid p \<and>
             article p = article c \<and> paragraph_num p = paragraph_num c"
proof -
  define A where "A = String_of n"
  define pc where "pc = map_option String_of mo"
  obtain d ds where A: "A = d # ds" "is_digit d" "list_all is_digit ds"
    unfolding A_def using assms(2) by (elim digits_cons [of n, rotated]) simp
  have pcs: "pc = None \<or> (\<exists>m ms. is_digit m \<and> list_all is_digit ms \<and> pc = Some (m # ms))"
  proof (cases mo)
    case None
    then show ?thesis by (simp add: pc_def)
  next
    case (Some m)
    then have "0 \<le> m" using assms(5) by simp
    then obtain x xs where "String_of m = x # xs" "is_digit x" "list_all is_digit xs"
      by (rule digits_cons)
    then show ?thesis using Some by (simp add: pc_def)
  qed
  have fmt: "valid c" "article c = Some A" "A \<noteq> []" "paragraph_num c = pc"
    "pc = None \<or> (\<exists>M. M \<noteq> [] \<and> pc = Some M)"
    using assms(1,4,6) A(1) pcs by (auto simp: A_def pc_def)
  note fs = format_strings [OF fmt assms(7)]
  have goal: "\<And>S. formatCitation c style = S \<Longrightarrow>
      \<exists>p. parseCitation S = Inr p \<and> valid p \<and> article p = Some A \<and> paragraph_num p = pc \<Longrightarrow>
      ?thesis"
    using fmt(2,4) by simp
  consider (eng) "style = English \<or> style = Full" "plain_title T"
    | (short) "style = Short" "plain_title T"
    | (chinese) "style = Chinese" "law_title T"
    using assms(8) by blast
  then show ?thesis
  proof cases
    case eng
    define P where "P = (case pc of None \<Rightarrow> [] | Some M \<Rightarrow> 44 # 32 # js ''Paragraph'' @ 32 # M)"
    define S where "S = js ''Article'' @ 32 # A @ P @ 44 # 32 # T"
    have Pc: "(P = [] \<and> pc = None) \<or>
            (\<exists>m ms. is_digit m \<and> list_all is_digit ms \<and>
               P = 44 # 32 # js ''Paragraph'' @ 32 # m # ms \<and> pc = Some (m # ms))"
      using pcs by (auto simp: P_def)
    have Tn: "T \<noteq> []" "\<not> is_ws (last T)" "last T \<noteq> 44"
      using eng(2) by (simp_all add: plain_title_def)
    have hdS: "S \<noteq> []" "\<not> is_ws (hd S)" by (simp_all add: S_def js_def is_ws_def)
    have lastS: "last S = last T" using Tn(1) by (simp add: S_def)
    have tr: "trim S = S" using hdS by (rule trim_id) (simp add: lastS Tn(2))
    have st: "strip_trailing_comma S = S"
      using hdS(1) by (rule strip_trailing_comma_id) (simp_all add: lastS Tn)
    have "formatCitation c style = S"
      using eng(1) fs(1,2) tr st by (auto simp: S_def P_def)
    moreover have "\<exists>p. parseCitation S = Inr p \<and> valid p \<and> article p = Some A \<and> paragraph_num p = pc"
      unfolding S_def by (rule parse_english [OF A Pc eng(2)])
    ultimately show ?thesis by (rule goal)
  next
    case short
    define P where "P = (case pc of None \<Rightarrow> [] | Some M \<Rightarrow> 44 # 32 # js ''Par'' @ 97 # 46 # 32 # M)"
    define S where "S = js ''Art'' @ 46 # 32 # A @ P @ 32 # T"
    have Pc: "(P = [] \<and> pc = None) \<or>
            (\<exists>m ms. is_digit m \<and> list_all is_digit ms \<and>
               P = 44 # 32 # js ''Par'' @ 97 # 46 # 32 # m # ms \<and> pc = Some (m # ms))"
      using pcs by (auto simp: P_def)
    have Tn: "T \<noteq> []" "\<not> is_ws (last T)"
      using short(2) by (simp_all add: plain_title_def)
    have hdS: "S \<noteq> []" "\<not> is_ws (hd S)" by (simp_all add: S_def js_def is_ws_def)
    have lastS: "last S = last T" using Tn(1) by (simp add: S_def)
    have tr: "trim S = S" using hdS by (rule trim_id) (simp add: lastS Tn(2))
    have "formatCitation c style = S"
      using short(1) fs(3) tr by (simp add: S_def P_def)
    moreover have "\<exists>p. parseCitation S = Inr p \<and> valid p \<and> article p = Some A \<and> paragraph_num p = pc"
      unfolding S_def by (rule parse_short [OF A Pc short(2)])
    ultimately show ?thesis by (rule goal)
  next
    case chinese
    define S where "S = buildChineseRef n mo @ 32 # T"
    have pa: "parseInt A = Some n" unfolding A_def using assms(2) by (intro parseInt_String_of) simp
    have pm: "(case pc of None \<Rightarrow> None | Some M \<Rightarrow> parseInt M) = mo"
    proof (cases mo)
      case None
      then show ?thesis by (simp add: pc_def)
    next
      case (Some m)
      then have "0 \<le> m" using assms(5) by simp
      then show ?thesis using Some by (simp add: pc_def parseInt_String_of)
    qed
    have Tn: "T \<noteq> []" "\<not> is_ws (last T)" using law_title_last [OF chinese(2)] by simp_all
    have hdS: "S \<noteq> []" "\<not> is_ws (hd S)" by (simp_all add: S_def buildChineseRef_def is_ws_def)
    have lastS: "last S = last T" using Tn(1) by (simp add: S_def)
    have tr: "trim S = S" using hdS by (rule trim_id) (simp add: lastS Tn(2))
    have "formatCitation c style = S"
      using chinese(1) fs(4) pa pm tr by (simp add: S_def)
    moreover have "\<exists>p. parseCitation S = Inr p \<and> valid p \<and> article p = Some A \<and> paragraph_num p = pc"
      unfolding S_def A_def pc_def by (rule parse_chinese [OF assms(2,3,5) chinese(2)])
    ultimately show ?thesis by (rule goal)
  qed
qed

theorem citation_roundtrip_witness:
  "(\<exists>p. parseCitation (formatCitation
        \<lparr>valid = True, type = statute, ParsedCitation.title = Some [67, 83, 76, 32, 50, 48, 49, 54],
         title_en = None, article = Some [51], paragraph_num = Some [49], error = None\<rparr> Short) = Inr p \<and>
      valid p \<and> article p = Some [51] \<and> paragraph_num p = Some [49]) \<and>
   (\<exists>p. parseCitation (formatCitation
        \<lparr>valid = True, type = statute, ParsedCitation.title = Some [32593, 32476, 23433, 20840, 27861],
         title_en = None, article = Some [50, 49], paragraph_num = None, error = None\<rparr> Chinese) = Inr p \<and>
      valid p \<and> article p = Some [50, 49] \<and> paragraph_num p = None)"
  using citation_roundtrip [of
      "\<lparr>valid = True, type = statute, ParsedCitation.title = Some [67, 83, 76, 32, 50, 48, 49, 54],
         title_en = None, article = Some [51], paragraph_num = Some [49], error = None\<rparr>"
      3 "Some 1" "[67, 83, 76, 32, 50, 48, 49, 54]" Short]
    citation_roundtrip [of
      "\<lparr>valid = True, type = statute, ParsedCitation.title = Some [32593, 32476, 23433, 20840, 27861],
         title_en = None, article = Some [50, 49], paragraph_num = None, error = None\<rparr>"
      21 None "[32593, 32476, 23433, 20840, 27861]" Chinese]
  by (simp add: String_of_def dec.simps plain_title_def law_title_def js_def is_dot_def is_ws_def
        is_digit_def ci_def)

text \<open>
  The claim as stated fails for the style \<^verbatim>\<open>chinese\<close> on a title that does not end as a
  law name does: the citation of article 3 of \<^verbatim>\<open>csl-2016\<close>, which the parser itself
  produces from \<^verbatim>\<open>csl-2016, art. 3\<close>, is written U+7B2C U+4E09 U+6761, a space,
  \<^verbatim>\<open>csl-2016\<close>; no pattern matches that, and the result has no article.
\<close>

theorem citation_roundtrip_counterexample:
  "formatCitation
     \<lparr>valid = True, type = statute, ParsedCitation.title = Some [99, 115, 108, 45, 50, 48, 49, 54],
      title_en = None, article = Some [51], paragraph_num = None, error = None\<rparr> Chinese
     = [31532, 19977, 26465, 32, 99, 115, 108, 45, 50, 48, 49, 54] \<and>
   parseCitation [31532, 19977, 26465, 32, 99, 115, 108, 45, 50, 48, 49, 54]
     = Inr \<lparr>valid = False, type = unknown, ParsedCitation.title = None, title_en = None,
            article = None, paragraph_num = None,
            error = Some (js ''Could not parse Chinese law citation: \"'' @
                      [31532, 19977, 26465, 32, 99, 115, 108, 45, 50, 48, 49, 54] @ js ''\"'')\<rparr>"
proof
  show "formatCitation
     \<lparr>valid = True, type = statute, ParsedCitation.title = Some [99, 115, 108, 45, 50, 48, 49, 54],
      title_en = None, article = Some [51], paragraph_num = None, error = None\<rparr> Chinese
     = [31532, 19977, 26465, 32, 99, 115, 108, 45, 50, 48, 49, 54]"
    by (simp add: formatCitation_def truthy_def parseInt_def digits_value_def is_ws_def is_digit_def
          buildChineseRef_def arabicToChinese_def ARABIC_TO_CHINESE_def trim_def js_def)
next
  let ?s = "[31532, 19977, 26465, 32, 99, 115, 108, 45, 50, 48, 49, 54]"
  have t: "trim ?s = ?s" by (simp add: trim_def is_ws_def)
  have "rx_exec ID_CITATION ?s = None" by (simp add: ID_CITATION_def rx_defs)
  moreover have "rx_exec CHINESE_CITATION ?s = None" by (simp add: CHINESE_CITATION_def rx_defs)
  moreover have "rx_exec CHINESE_LAW_FIRST ?s = None" by (simp add: CHINESE_LAW_FIRST_def rx_defs)
  moreover have "rx_exec ENGLISH_CITATION ?s = None" by (simp add: ENGLISH_CITATION_def rx_defs)
  moreover have "rx_exec SHORT_CITATION ?s = None" by (simp add: SHORT_CITATION_def rx_defs)
  moreover have "rx_exec BARE_CHINESE_ARTICLE ?s = None"
    by (simp add: BARE_CHINESE_ARTICLE_def rx_defs)
  moreover have "rx_exec BARE_ENGLISH_ARTICLE ?s = None"
    by (simp add: BARE_ENGLISH_ARTICLE_def rx_defs)
  ultimately show "parseCitation ?s
     = Inr \<lparr>valid = False, type = unknown, ParsedCitation.title = None, title_en = None,
            article = None, paragraph_num = None,
            error = Some (js ''Could not parse Chinese law citation: \"'' @ ?s @ js ''\"'')\<rparr>"
    using t by (simp add: parseCitation_def parse_failure_def)
qed

end
